theory Spec2Isabelle
  imports Main "HOL-Library.List_Lexorder"
begin

section \<open>Strings and number formatting\<close>

text \<open>
  A Python \<open>str\<close> is a sequence of Unicode code points, and \<open>len\<close>, slicing, comparison
  and the \<open>re\<close> module all work on code points. A string is therefore modelled as a list
  of code points (natural numbers); \<open>cp\<close> writes an ASCII literal.
\<close>

type_synonym ustr = "nat list"

definition cp :: "string \<Rightarrow> ustr" where
  "cp s = map of_char s"

text \<open>Decimal digits of a natural number, most significant first (\<open>str(n)\<close>).\<close>

fun dec :: "nat \<Rightarrow> ustr" where
  "dec n = (if n < 10 then [48 + n] else dec (n div 10) @ [48 + n mod 10])"

declare dec.simps [simp del]

definition zfill :: "nat \<Rightarrow> ustr \<Rightarrow> ustr" where
  "zfill w ds = replicate (w - length ds) 48 @ ds"

text \<open>
  The format specification \<open>{x:0wd}\<close>: sign-aware zero padding to width \<open>w\<close>; a longer
  number is not truncated.
\<close>

definition fmt_0d :: "nat \<Rightarrow> int \<Rightarrow> ustr" where
  "fmt_0d w x =
     (if x < 0 then 45 # zfill (w - 1) (dec (nat (- x))) else zfill w (dec (nat x)))"

text \<open>The slice \<open>xs[i:j]\<close> for non-negative bounds, and \<open>s[:-3]\<close>.\<close>

definition py_slice :: "'a list \<Rightarrow> nat \<Rightarrow> nat \<Rightarrow> 'a list" where
  "py_slice xs i j = take (j - i) (drop i xs)"

definition drop_last3 :: "'a list \<Rightarrow> 'a list" where
  "drop_last3 s = take (length s - 3) s"

section \<open>Verses, stanzas and recitation blocks\<close>

text \<open>
  The dictionaries built by \<open>CantoBuffer.add_verse\<close>, \<open>group_terzine\<close> and
  \<open>make_blocks\<close>, one record field per key.
\<close>

record verse =
  v_urn :: ustr
  v_number :: int
  v_text_original :: ustr
  v_last_word :: ustr
  v_rhyme_letter :: ustr
  v_ssml :: ustr

record terzina =
  t_urn :: ustr
  t_start_verso :: int
  t_end_verso :: int
  t_rhyme_scheme :: ustr
  t_versi :: "ustr list"

record block =
  b_urn :: ustr
  b_start_verso :: int
  b_end_verso :: int
  b_versi :: "ustr list"
  b_ssml :: ustr

subsection \<open>The stanza grouper (\<open>group_terzine\<close>, divina_full_pipeline.py)\<close>

text \<open>
  The body of the \<open>for\<close> loop once the chunk has passed the \<open>len(chunk) < 3\<close> guard;
  \<open>hd\<close> and \<open>last\<close> are \<open>chunk[0]\<close> and \<open>chunk[-1]\<close> of that non-empty chunk.
\<close>

definition terzina_of :: "verse list \<Rightarrow> terzina" where
  "terzina_of chunk =
     (let start_no = v_number (hd chunk); end_no = v_number (last chunk) in
      \<lparr> t_urn = drop_last3 (v_urn (hd chunk)) @ fmt_0d 3 start_no @ cp ''-'' @ fmt_0d 3 end_no,
        t_start_verso = start_no,
        t_end_verso = end_no,
        t_rhyme_scheme = cp ''aba'',
        t_versi = map v_urn chunk \<rparr>)"

text \<open>
  \<open>for i in range(0, len(verses), 3)\<close> with its \<open>break\<close>: the index runs through
  0, 3, 6, ... while it is below the length.
\<close>

function group_terzine_loop :: "verse list \<Rightarrow> nat \<Rightarrow> terzina list \<Rightarrow> terzina list" where
  "group_terzine_loop verses i out =
     (if i < length verses then
        (let chunk = py_slice verses i (i + 3) in
         if length chunk < 3 then out
         else group_terzine_loop verses (i + 3) (out @ [terzina_of chunk]))
      else out)"
  by pat_completeness auto
termination
  by (relation "measure (\<lambda>(verses, i, out). length verses - i)") auto

declare group_terzine_loop.simps [simp del]

definition group_terzine :: "verse list \<Rightarrow> terzina list" where
  "group_terzine verses = group_terzine_loop verses 0 []"


subsection \<open>Pacing markup (\<open>ssml_for_verso\<close>, \<open>ssml_block\<close>)\<close>

text \<open>\<open>text.replace(c, r)\<close> for a one-character \<open>c\<close>.\<close>

definition replace_char :: "nat \<Rightarrow> ustr \<Rightarrow> ustr \<Rightarrow> ustr" where
  "replace_char c r s = concat (map (\<lambda>x. if x = c then r else [x]) s)"

definition ssml_for_verso :: "ustr \<Rightarrow> ustr" where
  "ssml_for_verso text =
     (let safe = replace_char 62 (cp ''&gt;'')
                   (replace_char 60 (cp ''&lt;'') (replace_char 38 (cp ''&amp;'') text))
      in cp ''<s>'' @ safe @ cp ''</s>'')"

text \<open>
  The list \<open>parts\<close> of \<open>ssml_block\<close>; the first argument is the counter \<open>i\<close> of
  \<open>enumerate(verses_texts, start=1)\<close>.
\<close>

fun ssml_parts :: "nat \<Rightarrow> ustr list \<Rightarrow> ustr list" where
  "ssml_parts i [] = []"
| "ssml_parts i (t # ts) =
     (cp ''<s>'' @ t @ cp ''</s>'')
     # (if i mod 3 = 0 then cp ''<break time='220ms'/>'' else cp ''<break time='120ms'/>'')
     # ssml_parts (i + 1) ts"

definition ssml_block :: "ustr list \<Rightarrow> ustr" where
  "ssml_block verses_texts = cp ''<p>'' @ concat (ssml_parts 1 verses_texts) @ cp ''</p>''"

subsection \<open>The recitation-block builder (\<open>make_blocks\<close>)\<close>

text \<open>
  The block appended by one round of the \<open>while\<close> loop, for the non-empty chunk that
  passed the \<open>if not chunk: break\<close> guard.
\<close>

definition block_of :: "verse list \<Rightarrow> block" where
  "block_of chunk =
     (let start_no = v_number (hd chunk); end_no = v_number (last chunk);
          ssml = ssml_block (map v_text_original chunk) in
      \<lparr> b_urn = drop_last3 (v_urn (hd chunk)) @ fmt_0d 3 start_no @ cp ''-'' @ fmt_0d 3 end_no,
        b_start_verso = start_no,
        b_end_verso = end_no,
        b_versi = map v_urn chunk,
        b_ssml = ssml \<rparr>)"

text \<open>
  The \<open>while i < n\<close> loop. It is entered with \<open>size > 0\<close> only, so the slice bound
  \<open>i + size\<close> is positive; \<open>step\<close> is \<open>max(1, size - overlap)\<close>, which the source
  computes once before the loop.
\<close>

function make_blocks_loop ::
  "verse list \<Rightarrow> int \<Rightarrow> int \<Rightarrow> nat \<Rightarrow> block list \<Rightarrow> block list" where
  "make_blocks_loop verses size' overlap i blocks =
     (let step = max 1 (size' - overlap); n = length verses in
      if i < n then
        (let chunk = py_slice verses i (nat (int i + size')) in
         if chunk = [] then blocks
         else
           (let blocks' = blocks @ [block_of chunk] in
            if int i + size' \<ge> int n then blocks'
            else make_blocks_loop verses size' overlap (nat (int i + step)) blocks'))
      else blocks)"
  by pat_completeness auto
termination
  by (relation "measure (\<lambda>(verses, size', overlap, i, blocks). length verses - i)") auto

declare make_blocks_loop.simps [simp del]

definition make_blocks :: "verse list \<Rightarrow> int \<Rightarrow> int \<Rightarrow> block list" where
  "make_blocks verses size' overlap =
     (if size' \<le> 0 then [] else make_blocks_loop verses size' overlap 0 [])"

subsection \<open>The single-canto variant (divina_pipeline.py)\<close>

text \<open>\<open>s.rsplit('.', 1)[0]\<close>: the part before the last dot, the whole string if it has none.\<close>

definition rsplit_dot_head :: "ustr \<Rightarrow> ustr" where
  "rsplit_dot_head s =
     (if 46 \<in> set s then rev (tl (dropWhile (\<lambda>c. c \<noteq> 46) (rev s))) else s)"

definition terzina_of_dp :: "verse list \<Rightarrow> terzina" where
  "terzina_of_dp chunk =
     (let start_urn = v_urn (hd chunk) in
      \<lparr> t_urn = rsplit_dot_head start_urn @ cp ''.'' @ fmt_0d 3 (v_number (hd chunk))
                @ cp ''-'' @ fmt_0d 3 (v_number (last chunk)),
        t_start_verso = v_number (hd chunk),
        t_end_verso = v_number (last chunk),
        t_rhyme_scheme = cp ''aba'',
        t_versi = map v_urn chunk \<rparr>)"

function group_terzine_dp_loop :: "verse list \<Rightarrow> nat \<Rightarrow> terzina list \<Rightarrow> terzina list" where
  "group_terzine_dp_loop verses i terzine =
     (if i < length verses then
        (let chunk = py_slice verses i (i + 3) in
         if length chunk < 3 then terzine
         else group_terzine_dp_loop verses (i + 3) (terzine @ [terzina_of_dp chunk]))
      else terzine)"
  by pat_completeness auto
termination
  by (relation "measure (\<lambda>(verses, i, terzine). length verses - i)") auto

declare group_terzine_dp_loop.simps [simp del]

definition group_terzine_dp :: "verse list \<Rightarrow> terzina list" where
  "group_terzine_dp verses = group_terzine_dp_loop verses 0 []"

fun make_ssml_parts :: "nat \<Rightarrow> ustr list \<Rightarrow> ustr list" where
  "make_ssml_parts i [] = []"
| "make_ssml_parts i (t # ts) =
     (if i mod 3 = 0
      then (cp ''<s>'' @ t @ cp ''</s>'') # cp ''<break time='220ms'/>'' # make_ssml_parts (i + 1) ts
      else (cp ''<s>'' @ t @ cp ''</s>'') # cp ''<break time='120ms'/>'' # make_ssml_parts (i + 1) ts)"

definition make_ssml_for_block :: "ustr list \<Rightarrow> ustr" where
  "make_ssml_for_block verses_texts =
     cp ''<p>'' @ concat (make_ssml_parts 1 verses_texts) @ cp ''</p>''"

definition block_of_dp :: "verse list \<Rightarrow> block" where
  "block_of_dp chunk =
     (let start_no = v_number (hd chunk); end_no = v_number (last chunk);
          start_urn = v_urn (hd chunk);
          ssml = make_ssml_for_block (map v_text_original chunk) in
      \<lparr> b_urn = rsplit_dot_head start_urn @ cp ''.'' @ fmt_0d 3 start_no @ cp ''-''
                @ fmt_0d 3 end_no,
        b_start_verso = start_no,
        b_end_verso = end_no,
        b_versi = map v_urn chunk,
        b_ssml = ssml \<rparr>)"

function build_recitation_blocks_loop ::
  "verse list \<Rightarrow> int \<Rightarrow> int \<Rightarrow> nat \<Rightarrow> block list \<Rightarrow> block list" where
  "build_recitation_blocks_loop verses block_size overlap i blocks =
     (let step = max 1 (block_size - overlap); n = length verses in
      if i < n then
        (let chunk = py_slice verses i (nat (int i + block_size)) in
         if chunk = [] then blocks
         else
           (let blocks' = blocks @ [block_of_dp chunk] in
            if int i + block_size \<ge> int n then blocks'
            else build_recitation_blocks_loop verses block_size overlap (nat (int i + step))
                   blocks'))
      else blocks)"
  by pat_completeness auto
termination
  by (relation "measure (\<lambda>(verses, block_size, overlap, i, blocks). length verses - i)") auto

declare build_recitation_blocks_loop.simps [simp del]

definition build_recitation_blocks :: "verse list \<Rightarrow> int \<Rightarrow> int \<Rightarrow> block list" where
  "build_recitation_blocks verses block_size overlap =
     (if block_size \<le> 0 then []
      else build_recitation_blocks_loop verses block_size overlap 0 [])"


text \<open>
  Both variants cut the verse number off the end of the first verse's identifier, one by
  position and one at the last dot. This is the shape of identifier for which the two
  agree: it ends in a dot and the verse's own number, padded to three digits, and that
  number has no more than three digits.
\<close>

definition numbered_urn :: "verse \<Rightarrow> bool" where
  "numbered_urn v =
     (0 \<le> v_number v \<and> v_number v \<le> 999
      \<and> drop (length (v_urn v) - 4) (v_urn v) = cp ''.'' @ fmt_0d 3 (v_number v))"

section \<open>Unicode character data\<close>

text \<open>
  Whitespace as \<open>str.strip\<close>, \<open>str.split\<close> and the pattern \<open>\s\<close> see it: the code
  points for which \<open>str.isspace\<close> holds.
\<close>

definition is_space :: "nat \<Rightarrow> bool" where
  "is_space c =
     ((9 \<le> c \<and> c \<le> 13) \<or> (28 \<le> c \<and> c \<le> 32) \<or> c = 133 \<or> c = 160 \<or> c = 5760
      \<or> (8192 \<le> c \<and> c \<le> 8202) \<or> c = 8232 \<or> c = 8233 \<or> c = 8239 \<or> c = 8287
      \<or> c = 12288)"

text \<open>
  The tables of the Unicode database that the interpreter brings and the repository does
  not hold are a parameter: which code points from 128 on are decimal digits (\<open>\d\<close>) and
  alphanumeric (\<open>\w\<close>), and what \<open>str.lower\<close> and \<open>str.upper\<close> return for a string
  that holds a code point from 128 on. On ASCII everything is fixed below.
\<close>

record unicode_db =
  ud_decimal :: "nat \<Rightarrow> bool"
  ud_alnum :: "nat \<Rightarrow> bool"
  ud_lower :: "ustr \<Rightarrow> ustr"
  ud_upper :: "ustr \<Rightarrow> ustr"

definition is_decimal :: "unicode_db \<Rightarrow> nat \<Rightarrow> bool" where
  "is_decimal U c = (if c < 128 then 48 \<le> c \<and> c \<le> 57 else ud_decimal U c)"

definition is_word :: "unicode_db \<Rightarrow> nat \<Rightarrow> bool" where
  "is_word U c =
     (if c < 128
      then (48 \<le> c \<and> c \<le> 57) \<or> (65 \<le> c \<and> c \<le> 90) \<or> (97 \<le> c \<and> c \<le> 122) \<or> c = 95
      else ud_alnum U c)"

definition ascii_lower :: "nat \<Rightarrow> nat" where
  "ascii_lower c = (if 65 \<le> c \<and> c \<le> 90 then c + 32 else c)"

definition ascii_upper :: "nat \<Rightarrow> nat" where
  "ascii_upper c = (if 97 \<le> c \<and> c \<le> 122 then c - 32 else c)"

definition py_lower :: "unicode_db \<Rightarrow> ustr \<Rightarrow> ustr" where
  "py_lower U s = (if list_all (\<lambda>c. c < 128) s then map ascii_lower s else ud_lower U s)"

definition py_upper :: "unicode_db \<Rightarrow> ustr \<Rightarrow> ustr" where
  "py_upper U s = (if list_all (\<lambda>c. c < 128) s then map ascii_upper s else ud_upper U s)"

definition py_strip :: "ustr \<Rightarrow> ustr" where
  "py_strip s = rev (dropWhile is_space (rev (dropWhile is_space s)))"

text \<open>The maximal runs of the characters that satisfy \<open>P\<close>, left to right.\<close>

function runs :: "('a \<Rightarrow> bool) \<Rightarrow> 'a list \<Rightarrow> 'a list list" where
  "runs P [] = []"
| "runs P (x # xs) =
     (if P x then takeWhile P (x # xs) # runs P (dropWhile P xs) else runs P xs)"
  by pat_completeness auto
termination
  by (relation "measure (\<lambda>(P, xs). length xs)") (auto simp: le_imp_less_Suc length_dropWhile_le)

text \<open>\<open>line.split()\<close>: the maximal runs of non-whitespace.\<close>

definition py_split :: "ustr \<Rightarrow> ustr list" where
  "py_split s = runs (\<lambda>c. \<not> is_space c) s"

section \<open>Regular expressions\<close>

text \<open>
  The patterns of the repository use literals, character sets, \<open>\s\<close>, \<open>\d\<close>, \<open>.\<close>,
  concatenation, alternation, \<open>*\<close>, \<open>+\<close> and \<open>?\<close> between \<open>^\<close> and \<open>$\<close>; whether such
  a pattern matches does not depend on the order in which a backtracking matcher tries the
  alternatives, so matching is decided by derivatives.

  A literal of a pattern matched with \<open>re.IGNORECASE\<close> is \<open>LitI\<close>. The \<open>re\<close> module
  compares the simple lower-case forms, and treats dotless i and long s as the letters i and
  s: the letter i matches \<open>I i U+0130 U+0131\<close>, the letter k \<open>K k U+212A\<close>, the letter s
  \<open>S s U+017F\<close>, a grave \<open>U+00C0 U+00E0\<close>, any other ASCII letter its two cases, and a
  character without case itself. \<open>sre_key\<close> sends each of these sets to one
  representative; it is exact for the literals the repository's patterns hold (ASCII, a
  grave, the en dash).
\<close>

definition sre_key :: "nat \<Rightarrow> nat" where
  "sre_key x =
     (if 65 \<le> x \<and> x \<le> 90 then x + 32
      else if x = 304 \<or> x = 305 then 105
      else if x = 8490 then 107
      else if x = 383 then 115
      else if x = 192 then 224
      else x)"

datatype cclass =
    Lit nat
  | LitI nat
  | Range nat nat
  | Space
  | Digit
  | Dot
  | OneOf "cclass list"

fun cmatch :: "unicode_db \<Rightarrow> cclass \<Rightarrow> nat \<Rightarrow> bool" where
  "cmatch U (Lit p) x = (x = p)"
| "cmatch U (LitI p) x = (sre_key x = sre_key p)"
| "cmatch U (Range a b) x = (a \<le> x \<and> x \<le> b)"
| "cmatch U Space x = is_space x"
| "cmatch U Digit x = is_decimal U x"
| "cmatch U Dot x = (x \<noteq> 10)"
| "cmatch U (OneOf cs) x = list_ex (\<lambda>c. cmatch U c x) cs"

datatype rx = Zero | Eps | Atom cclass | Seq rx rx | Alt rx rx | Star rx

definition Plus :: "rx \<Rightarrow> rx" where
  "Plus r = Seq r (Star r)"

definition Opt :: "rx \<Rightarrow> rx" where
  "Opt r = Alt r Eps"

definition seqs :: "rx list \<Rightarrow> rx" where
  "seqs rs = foldr Seq rs Eps"

definition alts :: "rx list \<Rightarrow> rx" where
  "alts rs = foldr Alt rs Zero"

definition word :: "string \<Rightarrow> rx" where
  "word s = seqs (map (\<lambda>c. Atom (Lit (of_char c))) s)"

definition iword :: "string \<Rightarrow> rx" where
  "iword s = seqs (map (\<lambda>c. Atom (LitI (of_char c))) s)"

fun nullable :: "rx \<Rightarrow> bool" where
  "nullable Zero = False"
| "nullable Eps = True"
| "nullable (Atom c) = False"
| "nullable (Seq r s) = (nullable r \<and> nullable s)"
| "nullable (Alt r s) = (nullable r \<or> nullable s)"
| "nullable (Star r) = True"

fun deriv :: "unicode_db \<Rightarrow> nat \<Rightarrow> rx \<Rightarrow> rx" where
  "deriv U x Zero = Zero"
| "deriv U x Eps = Zero"
| "deriv U x (Atom c) = (if cmatch U c x then Eps else Zero)"
| "deriv U x (Seq r s) =
     (if nullable r then Alt (Seq (deriv U x r) s) (deriv U x s) else Seq (deriv U x r) s)"
| "deriv U x (Alt r s) = Alt (deriv U x r) (deriv U x s)"
| "deriv U x (Star r) = Seq (deriv U x r) (Star r)"

fun matches :: "unicode_db \<Rightarrow> rx \<Rightarrow> ustr \<Rightarrow> bool" where
  "matches U r [] = nullable r"
| "matches U r (x # xs) = matches U (deriv U x r) xs"

text \<open>
  \<open>re.match('^' + r + '$', s)\<close> as a truth value: \<open>$\<close> matches at the end of the string
  and also just before a newline that ends it.
\<close>

definition re_match :: "unicode_db \<Rightarrow> rx \<Rightarrow> ustr \<Rightarrow> bool" where
  "re_match U r s = (matches U r s \<or> (s \<noteq> [] \<and> last s = 10 \<and> matches U r (butlast s)))"

subsection \<open>The language of a pattern\<close>

text \<open>
  The strings that a pattern matches in full, as sets: the reference against which the
  derivative matcher is proved and from which the shape of matching lines is read off.
\<close>

inductive_set star :: "'a list set \<Rightarrow> 'a list set" for A :: "'a list set" where
  star_empty: "[] \<in> star A"
| star_step: "u \<in> A \<Longrightarrow> v \<in> star A \<Longrightarrow> u @ v \<in> star A"

fun lang :: "unicode_db \<Rightarrow> rx \<Rightarrow> ustr set" where
  "lang U Zero = {}"
| "lang U Eps = {[]}"
| "lang U (Atom c) = {[x] |x. cmatch U c x}"
| "lang U (Seq r s) = {u @ v |u v. u \<in> lang U r \<and> v \<in> lang U s}"
| "lang U (Alt r s) = lang U r \<union> lang U s"
| "lang U (Star r) = star (lang U r)"

text \<open>
  \<open>lead_keys ks s\<close>: after its leading whitespace the string \<open>s\<close> goes on with
  characters whose case-insensitive representatives are \<open>ks\<close>.
\<close>

definition lead_keys :: "nat list \<Rightarrow> ustr \<Rightarrow> bool" where
  "lead_keys ks s =
     (length ks \<le> length (dropWhile is_space s)
      \<and> map sre_key (take (length ks) (dropWhile is_space s)) = ks)"

section \<open>The line classifier (divina_full_pipeline.py)\<close>

definition ws :: rx where
  "ws = Atom Space"

definition upper_it :: rx where
  "upper_it = Atom (OneOf [Range 65 90, Lit 192, Lit 200, Lit 201, Lit 204, Lit 210, Lit 217])"

definition CANTO_HEADER_RE :: rx where
  "CANTO_HEADER_RE =
     seqs [Star ws, word ''CANTO'', Plus ws, Plus upper_it,
           Opt (Seq (Plus ws) (Plus upper_it)), Star ws]"

text \<open>The group of \<open>CANTICA_HEADER_RE\<close>, compiled with \<open>re.IGNORECASE\<close>.\<close>

definition cantica_names :: rx where
  "cantica_names = alts [iword ''INFERNO'', iword ''PURGATORIO'', iword ''PARADISO'']"

definition CANTICA_HEADER_RE :: rx where
  "CANTICA_HEADER_RE = seqs [Star ws, cantica_names, Star ws]"

text \<open>
  The three pattern lists; \<open>looks_like_noise\<close> matches them with \<open>re.IGNORECASE\<close>, so
  their literals are case-insensitive. 46 is the full stop, 8211 the en dash.
\<close>

definition HEADER_PATTERNS :: "rx list" where
  "HEADER_PATTERNS =
     [seqs [Star ws, iword ''LA'', Plus ws, iword ''DIVINA'', Plus ws, iword ''COMMEDIA'', Star ws],
      seqs [Star ws, iword ''DANTE'', Plus ws, iword ''ALIGHIERI'', Star ws],
      seqs [Star ws, iword ''Propriet'', Atom (OneOf [LitI 97, LitI 224]), Plus ws,
            iword ''letteraria'', Star (Atom Dot)],
      seqs [Star ws, iword ''Milano'', Atom (LitI 46), Star ws, Atom (LitI 8211), Star ws,
            iword ''Tip'', Atom (LitI 46), Star ws, iword ''Treves'', Atom (LitI 46), Star ws],
      seqs [Star ws, iword ''PREFAZIONE'', Star ws],
      seqs [Star ws, iword ''INDICE'', Star (Atom Dot)],
      seqs [Star ws, iword ''Liber'', Plus ws, iword ''Liber'', Star ws]]"

definition FOOTER_PATTERNS :: "rx list" where
  "FOOTER_PATTERNS = [seqs [Star ws, Plus (Atom Digit), Star ws]]"

definition ILLUSTRATION_PATTERNS :: "rx list" where
  "ILLUSTRATION_PATTERNS =
     [seqs [Star ws, iword ''Raffaello'', Atom (LitI 46), Star (Atom Dot)],
      seqs [Star ws, iword ''Michelangelo'', Atom (LitI 46), Star (Atom Dot)],
      seqs [Star ws, iword ''Luca'', Plus ws, iword ''Signorelli'', Atom (LitI 46),
            Star (Atom Dot)],
      seqs [Star ws, iword ''Disegno'', Plus ws, iword ''di'', Plus ws, Star (Atom Dot)],
      seqs [Star ws, iword ''Miniatura'', Plus ws, iword ''del'', Plus ws, Star (Atom Dot)],
      seqs [Star ws, iword ''Pagina'', Plus ws, iword ''del'', Plus ws, iword ''Dante'',
            Star (Atom Dot)]]"

definition looks_like_noise :: "unicode_db \<Rightarrow> ustr \<Rightarrow> bool" where
  "looks_like_noise U line =
     list_ex (\<lambda>pat. re_match U pat line)
       (HEADER_PATTERNS @ FOOTER_PATTERNS @ ILLUSTRATION_PATTERNS)"

text \<open>
  \<open>clean_line\<close>: the soft hyphen U+00AD is removed; the second \<open>replace\<close> of the source
  replaces the apostrophe U+2019 by itself.
\<close>

definition clean_line :: "ustr \<Rightarrow> ustr" where
  "clean_line line = py_strip (replace_char 8217 [8217] (replace_char 173 [] line))"

text \<open>The pattern \<open>^[A-Z\s\.\-]+$\<close> of \<open>is_probable_verse\<close>.\<close>

definition CAPS_RE :: rx where
  "CAPS_RE = Plus (Atom (OneOf [Range 65 90, Space, Lit 46, Lit 45]))"

text \<open>
  \<open>re.sub(r"\W+", "", line)\<close> deletes every maximal run of non-word characters, which
  leaves the word characters of the line in order.
\<close>

definition strip_nonword :: "unicode_db \<Rightarrow> ustr \<Rightarrow> ustr" where
  "strip_nonword U line = filter (is_word U) line"

definition is_probable_verse :: "unicode_db \<Rightarrow> ustr \<Rightarrow> bool" where
  "is_probable_verse U line =
     (if line = [] then False
      else if looks_like_noise U line then False
      else if re_match U CAPS_RE line \<and> length (py_split line) \<le> 4
              \<and> \<not> re_match U CANTO_HEADER_RE line \<and> \<not> re_match U CANTICA_HEADER_RE line
           then False
      else if re_match U CANTO_HEADER_RE line \<or> re_match U CANTICA_HEADER_RE line then False
      else if length (strip_nonword U line) < 2 then False
      else True)"


section \<open>Identifiers and annotations\<close>

datatype error = ValueError | KeyError | AttributeError

definition starts_with :: "ustr \<Rightarrow> ustr \<Rightarrow> bool" where
  "starts_with s p = (take (length p) s = p)"

definition short_cantica :: "unicode_db \<Rightarrow> ustr \<Rightarrow> error + ustr" where
  "short_cantica U cantica =
     (let c = py_lower U (py_strip cantica) in
      if starts_with c (cp ''inf'') then Inr (cp ''inf'')
      else if starts_with c (cp ''pur'') then Inr (cp ''purg'')
      else if starts_with c (cp ''par'') then Inr (cp ''par'')
      else Inl ValueError)"

definition verse_urn :: "unicode_db \<Rightarrow> ustr \<Rightarrow> int \<Rightarrow> int \<Rightarrow> error + ustr" where
  "verse_urn U cantica canto n =
     (case short_cantica U cantica of
        Inl e \<Rightarrow> Inl e
      | Inr sc \<Rightarrow> Inr (sc @ cp ''.'' @ fmt_0d 2 canto @ cp ''.'' @ fmt_0d 3 n))"

text \<open>
  The character set of \<open>last_word\<close>: ASCII letters, U+00C0 to U+00FF without the
  multiplication and division signs, the apostrophes U+2019 and U+0027.
\<close>

definition is_token_char :: "nat \<Rightarrow> bool" where
  "is_token_char c =
     ((65 \<le> c \<and> c \<le> 90) \<or> (97 \<le> c \<and> c \<le> 122) \<or> (192 \<le> c \<and> c \<le> 214)
      \<or> (216 \<le> c \<and> c \<le> 246) \<or> (248 \<le> c \<and> c \<le> 255) \<or> c = 8217 \<or> c = 39)"

definition last_word :: "unicode_db \<Rightarrow> ustr \<Rightarrow> ustr" where
  "last_word U text =
     (let tokens = runs is_token_char text in
      if tokens = [] then [] else py_lower U (last tokens))"

section \<open>The document segmenter (\<open>CantoBuffer\<close>, \<open>run_pipeline\<close>)\<close>

record canto_buffer =
  cb_cantica :: ustr
  cb_canto_num :: int
  cb_verses :: "verse list"

definition add_verse :: "unicode_db \<Rightarrow> canto_buffer \<Rightarrow> ustr \<Rightarrow> error + canto_buffer" where
  "add_verse U buf text =
     (let n = int (length (cb_verses buf)) + 1 in
      case verse_urn U (cb_cantica buf) (cb_canto_num buf) n of
        Inl e \<Rightarrow> Inl e
      | Inr u \<Rightarrow>
          Inr (buf\<lparr>cb_verses := cb_verses buf @
                 [\<lparr> v_urn = u,
                    v_number = n,
                    v_text_original = text,
                    v_last_word = last_word U text,
                    v_rhyme_letter = [cp ''aba'' ! nat ((n - 1) mod 3)],
                    v_ssml = ssml_for_verso text \<rparr>]\<rparr>))"

record counts =
  n_versi :: int
  n_terzine :: int
  n_recitation_blocks :: int

record canto_json =
  cj_cantica :: ustr
  cj_canto :: int
  cj_pdf :: ustr
  cj_pages :: "int \<times> int"
  cj_counts :: counts
  cj_versi :: "verse list"
  cj_terzine :: "terzina list"
  cj_recitation_blocks :: "block list"

definition to_json :: "canto_buffer \<Rightarrow> ustr \<Rightarrow> int \<times> int \<Rightarrow> int \<Rightarrow> int \<Rightarrow> canto_json" where
  "to_json buf source_pdf pages_range block_size block_overlap =
     (let terzine = group_terzine (cb_verses buf);
          blocks = make_blocks (cb_verses buf) block_size block_overlap in
      \<lparr> cj_cantica = cb_cantica buf,
        cj_canto = cb_canto_num buf,
        cj_pdf = source_pdf,
        cj_pages = pages_range,
        cj_counts = \<lparr> n_versi = int (length (cb_verses buf)),
                      n_terzine = int (length terzine),
                      n_recitation_blocks = int (length blocks) \<rparr>,
        cj_versi = cb_verses buf,
        cj_terzine = terzine,
        cj_recitation_blocks = blocks \<rparr>)"

definition CANTICHE_TITLES :: "(ustr \<times> ustr) list" where
  "CANTICHE_TITLES =
     [(cp ''INFERNO'', cp ''Inferno''),
      (cp ''PURGATORIO'', cp ''Purgatorio''),
      (cp ''PARADISO'', cp ''Paradiso'')]"

text \<open>The arguments of \<open>run_pipeline\<close> next to the extracted pages.\<close>

record config =
  cfg_pdf :: ustr
  cfg_outdir :: ustr
  cfg_block_size :: int
  cfg_block_overlap :: int

record manifest_entry =
  me_cantica :: "ustr option"
  me_canto :: "int option"
  me_file :: ustr
  me_counts :: counts

text \<open>
  The variables that the loop of \<open>run_pipeline\<close> and its closure \<open>close_canto\<close> share.
  \<open>manifest_canti\<close> is \<open>manifest["canti"]\<close>, \<open>last_canto c\<close> is the entry
  \<open>manifest["__last_canto_" + c]\<close>, and \<open>written\<close> lists the canto files in the order
  in which \<open>json.dump\<close> writes them, each with its path.
\<close>

record seg_state =
  manifest_canti :: "manifest_entry list"
  last_canto :: "ustr \<Rightarrow> int option"
  current_cantica :: "ustr option"
  current_canto_num :: "int option"
  canto_buf :: "canto_buffer option"
  canto_start_page :: "int option"
  written :: "(ustr \<times> canto_json) list"

text \<open>\<open>os.path.join(outdir, fname)\<close> for a relative \<open>fname\<close> (POSIX).\<close>

definition path_join :: "ustr \<Rightarrow> ustr \<Rightarrow> ustr" where
  "path_join a b = (if a = [] \<or> last a = 47 then a @ b else a @ cp ''/'' @ b)"

text \<open>
  \<open>close_canto\<close>. Applying \<open>short_cantica\<close> to \<open>None\<close> raises AttributeError; nothing is
  written before the file name is built.
\<close>

definition close_canto :: "unicode_db \<Rightarrow> config \<Rightarrow> int \<Rightarrow> seg_state \<Rightarrow> error + seg_state" where
  "close_canto U cfg end_page_idx st =
     (case canto_buf st of
        None \<Rightarrow> Inr st
      | Some buf \<Rightarrow>
          (let data = to_json buf (cfg_pdf cfg)
                        ((case canto_start_page st of None \<Rightarrow> 0 | Some p \<Rightarrow> p) + 1,
                         end_page_idx + 1)
                        (cfg_block_size cfg) (cfg_block_overlap cfg) in
           case current_cantica st of
             None \<Rightarrow> Inl AttributeError
           | Some cantica \<Rightarrow>
               (case short_cantica U cantica of
                  Inl e \<Rightarrow> Inl e
                | Inr sc \<Rightarrow>
                    (let fname = sc @ cp ''_'' @ fmt_0d 2 (cb_canto_num buf) @ cp ''.json'';
                         fpath = path_join (cfg_outdir cfg) fname in
                     Inr (st\<lparr> written := written st @ [(fpath, data)],
                              manifest_canti := manifest_canti st @
                                [\<lparr> me_cantica = current_cantica st,
                                   me_canto = current_canto_num st,
                                   me_file = fpath,
                                   me_counts = cj_counts data \<rparr>],
                              canto_buf := None,
                              current_canto_num := None,
                              canto_start_page := None \<rparr>)))))"

text \<open>
  One round of the inner loop of \<open>run_pipeline\<close>, for the line \<open>line\<close> of page
  \<open>page_idx\<close>. The group of \<open>CANTICA_HEADER_RE\<close> lies between the two \<open>\s*\<close>, and the
  names hold no whitespace, so \<open>group(1)\<close> is the line without the whitespace around it.
\<close>

definition step :: "unicode_db \<Rightarrow> config \<Rightarrow> int \<Rightarrow> seg_state \<Rightarrow> ustr \<Rightarrow> error + seg_state" where
  "step U cfg page_idx st line =
     (if re_match U CANTICA_HEADER_RE line then
        (case close_canto U cfg (page_idx - 1) st of
           Inl e \<Rightarrow> Inl e
         | Inr st1 \<Rightarrow>
             (let title = py_upper U (py_strip line) in
              case map_of CANTICHE_TITLES title of
                None \<Rightarrow> Inl KeyError
              | Some name \<Rightarrow> Inr (st1\<lparr>current_cantica := Some name\<rparr>)))
      else if re_match U CANTO_HEADER_RE line then
        (case current_cantica st of
           None \<Rightarrow> Inr st
         | Some cantica \<Rightarrow>
             (case close_canto U cfg (page_idx - 1) st of
                Inl e \<Rightarrow> Inl e
              | Inr st1 \<Rightarrow>
                  (let next_num = (case last_canto st1 cantica of None \<Rightarrow> 1 | Some k \<Rightarrow> k + 1) in
                   Inr (st1\<lparr> last_canto := (last_canto st1)(cantica \<mapsto> next_num),
                             current_canto_num := Some next_num,
                             canto_buf := Some \<lparr> cb_cantica = cantica, cb_canto_num = next_num,
                                                 cb_verses = [] \<rparr>,
                             canto_start_page := Some page_idx \<rparr>))))
      else
        (case canto_buf st of
           None \<Rightarrow> Inr st
         | Some buf \<Rightarrow>
             if is_probable_verse U line then
               (case add_verse U buf line of
                  Inl e \<Rightarrow> Inl e
                | Inr buf' \<Rightarrow> Inr (st\<lparr>canto_buf := Some buf'\<rparr>))
             else Inr st))"

text \<open>The lines of one page, then the pages from \<open>page_idx\<close> on; an exception ends the run.\<close>

fun run_lines :: "unicode_db \<Rightarrow> config \<Rightarrow> int \<Rightarrow> seg_state \<Rightarrow> ustr list \<Rightarrow> error + seg_state" where
  "run_lines U cfg page_idx st [] = Inr st"
| "run_lines U cfg page_idx st (line # lines) =
     (case step U cfg page_idx st line of
        Inl e \<Rightarrow> Inl e
      | Inr st' \<Rightarrow> run_lines U cfg page_idx st' lines)"

fun run_pages ::
  "unicode_db \<Rightarrow> config \<Rightarrow> int \<Rightarrow> seg_state \<Rightarrow> ustr list list \<Rightarrow> error + seg_state" where
  "run_pages U cfg page_idx st [] = Inr st"
| "run_pages U cfg page_idx st (lines # pages) =
     (case run_lines U cfg page_idx st lines of
        Inl e \<Rightarrow> Inl e
      | Inr st' \<Rightarrow> run_pages U cfg (page_idx + 1) st' pages)"

definition init_state :: seg_state where
  "init_state =
     \<lparr> manifest_canti = [], last_canto = Map.empty, current_cantica = None,
       current_canto_num = None, canto_buf = None, canto_start_page = None, written = [] \<rparr>"

text \<open>
  \<open>parse_pdf\<close> hands over, for each page, the cleaned non-empty lines of the text that the
  PDF library extracts; the argument here is that text, split into lines.
\<close>

definition page_lines :: "ustr list \<Rightarrow> ustr list" where
  "page_lines raw = map clean_line (filter (\<lambda>x. clean_line x \<noteq> []) raw)"

text \<open>
  \<open>run_pipeline\<close> up to the last \<open>close_canto\<close>. What follows in the source removes the
  counters from the manifest and writes it; the state returned here holds the manifest's
  entries and the canto files.
\<close>

definition run_pipeline :: "unicode_db \<Rightarrow> config \<Rightarrow> ustr list list \<Rightarrow> error + seg_state" where
  "run_pipeline U cfg raw_pages =
     (let pages_lines = map page_lines raw_pages in
      case run_pages U cfg 0 init_state pages_lines of
        Inl e \<Rightarrow> Inl e
      | Inr st \<Rightarrow> close_canto U cfg (int (length pages_lines) - 1) st)"

section \<open>Worked example\<close>

text \<open>
  The first verses of the poem, as \<open>add_verse\<close> stores them in the buffer of Inferno I.
  Their text is ASCII, so the Unicode tables are not consulted. Of the code points from 128
  on, \<open>plain_db\<close> holds the entries of U+0130, the capital I with a dot above: a letter and
  not a digit, which \<open>str.upper\<close> keeps and \<open>str.lower\<close> turns into an i followed by
  U+0307. Every other code point from 128 on stands in it as a character without case that
  is neither a digit nor a letter, so \<open>plain_db\<close> is the interpreter's table on the strings
  over ASCII and U+0130.
\<close>

definition plain_db :: unicode_db where
  "plain_db =
     \<lparr> ud_decimal = (\<lambda>c. False), ud_alnum = (\<lambda>c. c = 304),
       ud_lower = (\<lambda>s. concat (map (\<lambda>c. if c = 304 then [105, 775] else [ascii_lower c]) s)),
       ud_upper = (\<lambda>s. map ascii_upper s) \<rparr>"

fun add_verses :: "unicode_db \<Rightarrow> canto_buffer \<Rightarrow> ustr list \<Rightarrow> error + canto_buffer" where
  "add_verses U buf [] = Inr buf"
| "add_verses U buf (t # ts) =
     (case add_verse U buf t of Inl e \<Rightarrow> Inl e | Inr buf' \<Rightarrow> add_verses U buf' ts)"

definition inferno_1_lines :: "ustr list" where
  "inferno_1_lines =
     [cp ''Nel mezzo del cammin di nostra vita'',
      cp ''mi ritrovai per una selva oscura'',
      cp ''che la diritta via era smarrita.'',
      cp ''Ahi quanto a dir qual era e cosa dura'',
      cp ''esta selva selvaggia e aspra e forte'']"

definition inferno_1 :: "verse list" where
  "inferno_1 =
     (case add_verses plain_db \<lparr> cb_cantica = cp ''Inferno'', cb_canto_num = 1, cb_verses = [] \<rparr>
             inferno_1_lines of
        Inl e \<Rightarrow> []
      | Inr buf \<Rightarrow> cb_verses buf)"

definition sample_cfg :: config where
  "sample_cfg =
     \<lparr> cfg_pdf = cp ''commedia.pdf'', cfg_outdir = cp ''out'',
       cfg_block_size = 12, cfg_block_overlap = 0 \<rparr>"

text \<open>
  Three pages of extracted lines: a running title, two cantos of Inferno of which the
  second is empty, one canto of Purgatorio, and a third canto of Inferno after it.
\<close>

definition demo_pages :: "ustr list list" where
  "demo_pages =
     [[cp ''LA DIVINA COMMEDIA'', cp ''INFERNO'', cp ''CANTO PRIMO'',
       cp ''Nel mezzo del cammin di nostra vita'', cp ''5'',
       cp ''che la diritta via era smarrita''],
      [cp ''CANTO SECONDO'', cp ''PURGATORIO'', cp ''CANTO PRIMO'',
       cp ''Per correr miglior acque''],
      [cp ''INFERNO'', cp ''CANTO TERZO'', cp ''Per me si va'']]"

text \<open>What a written canto file says about its numbering.\<close>

definition canto_summary :: "canto_json \<Rightarrow> ustr \<times> int \<times> int list \<times> counts" where
  "canto_summary d = (cj_cantica d, cj_canto d, map v_number (cj_versi d), cj_counts d)"

text \<open>
  Verse records as a caller of the grouping functions may pass them: identifier, number
  and text, with the annotations that \<open>add_verse\<close> derives from the text.
\<close>

definition verse_record :: "ustr \<Rightarrow> int \<Rightarrow> ustr \<Rightarrow> verse" where
  "verse_record urn n t =
     \<lparr> v_urn = urn, v_number = n, v_text_original = t, v_last_word = t,
       v_rhyme_letter = py_slice t (length t - 1) (length t), v_ssml = ssml_for_verso t \<rparr>"

text \<open>Three verses numbered 1 to 3 whose identifiers do not end in their numbers.\<close>

definition loose_verses :: "verse list" where
  "loose_verses =
     [verse_record (cp ''ab'') 1 (cp ''x''), verse_record (cp ''c.d'') 2 (cp ''y''),
      verse_record (cp ''e'') 3 (cp ''z'')]"

text \<open>
  Three verses with the identifiers that \<open>verse_urn\<close> builds for the verse numbers -100 to
  -98 of the first canto of Inferno.
\<close>

definition negative_verses :: "verse list" where
  "negative_verses =
     [verse_record (cp ''inf.01.-100'') (- 100) (cp ''x''),
      verse_record (cp ''inf.01.-99'') (- 99) (cp ''y''),
      verse_record (cp ''inf.01.-98'') (- 98) (cp ''z'')]"

text \<open>
  The variables of the loop after the lines \<open>INFERNO\<close> and \<open>CANTO PRIMO\<close> on the first
  page: the first canto of Inferno is open and holds no verse yet.
\<close>

definition open_state :: seg_state where
  "open_state =
     init_state\<lparr> last_canto := (last_canto init_state)(cp ''Inferno'' \<mapsto> 1),
                 current_cantica := Some (cp ''Inferno''),
                 current_canto_num := Some 1,
                 canto_buf := Some \<lparr> cb_cantica = cp ''Inferno'', cb_canto_num = 1,
                                     cb_verses = [] \<rparr>,
                 canto_start_page := Some 0 \<rparr>"

text \<open>
  The test for a verse as the specification words it, read on lines of ASCII characters,
  where it is not in doubt what a capital letter and what a punctuation mark is: the line
  is not empty, matches no noise pattern, is no part and no canto heading, holds at least
  two characters that are neither punctuation nor whitespace, and is not a line of at
  most four words that holds capital letters, whitespace and punctuation only.
\<close>

definition ascii_punct :: "nat \<Rightarrow> bool" where
  "ascii_punct c =
     ((33 \<le> c \<and> c \<le> 47) \<or> (58 \<le> c \<and> c \<le> 64) \<or> (91 \<le> c \<and> c \<le> 96) \<or> (123 \<le> c \<and> c \<le> 126))"

definition claimed_verse :: "unicode_db \<Rightarrow> ustr \<Rightarrow> bool" where
  "claimed_verse U line =
     (line \<noteq> [] \<and> \<not> looks_like_noise U line
      \<and> \<not> re_match U CANTICA_HEADER_RE line \<and> \<not> re_match U CANTO_HEADER_RE line
      \<and> 2 \<le> length (filter (\<lambda>c. \<not> ascii_punct c \<and> \<not> is_space c) line)
      \<and> \<not> (length (py_split line) \<le> 4
            \<and> list_all (\<lambda>c. (65 \<le> c \<and> c \<le> 90) \<or> is_space c \<or> ascii_punct c) line))"

section \<open>Invariant of the segmenter\<close>

text \<open>Numbers that count up from 1 without a gap.\<close>

definition contiguous :: "int list \<Rightarrow> bool" where
  "contiguous ks = (ks = map int [1..<Suc (length ks)])"

text \<open>
  The verses of one canto: the part is one of the three titles, the verse numbers count up
  from 1, and each identifier is \<open>verse_urn\<close> of the part, the canto and the verse number.
\<close>

definition canto_ok :: "unicode_db \<Rightarrow> ustr \<Rightarrow> int \<Rightarrow> verse list \<Rightarrow> bool" where
  "canto_ok U cantica canto vs =
     (cantica \<in> snd ` set CANTICHE_TITLES
      \<and> contiguous (map v_number vs)
      \<and> list_all (\<lambda>v. verse_urn U cantica canto (v_number v) = Inr (v_urn v)) vs)"

text \<open>The canto numbers of the part \<open>c\<close> among the written files, in the order of writing.\<close>

definition cantos_written :: "ustr \<Rightarrow> seg_state \<Rightarrow> int list" where
  "cantos_written c st =
     map cj_canto (filter (\<lambda>d. cj_cantica d = c) (map snd (written st)))"

text \<open>The same with the number of the open canto at the end, when it belongs to \<open>c\<close>.\<close>

definition part_cantos :: "ustr \<Rightarrow> seg_state \<Rightarrow> int list" where
  "part_cantos c st =
     cantos_written c st @
     (case canto_buf st of
        None \<Rightarrow> []
      | Some b \<Rightarrow> if cb_cantica b = c then [cb_canto_num b] else [])"

definition seg_inv :: "unicode_db \<Rightarrow> seg_state \<Rightarrow> bool" where
  "seg_inv U st =
     (list_all (\<lambda>d. canto_ok U (cj_cantica d) (cj_canto d) (cj_versi d)) (map snd (written st))
      \<and> (\<forall>c. contiguous (part_cantos c st)
             \<and> last_canto st c =
                 (if part_cantos c st = [] then None
                  else Some (int (length (part_cantos c st)))))
      \<and> (case canto_buf st of
            None \<Rightarrow> True
          | Some b \<Rightarrow>
              current_cantica st = Some (cb_cantica b)
              \<and> current_canto_num st = Some (cb_canto_num b)
              \<and> canto_ok U (cb_cantica b) (cb_canto_num b) (cb_verses b))
      \<and> (case current_cantica st of
            None \<Rightarrow> True
          | Some c \<Rightarrow> c \<in> snd ` set CANTICHE_TITLES))"

section \<open>Evaluation of the worked example\<close>

lemma replicate_numeral: "replicate (numeral k) x = x # replicate (pred_numeral k) x"
  by (simp add: numeral_eq_Suc)

lemmas eval_strings = cp_def fmt_0d_def zfill_def dec.simps replicate_numeral drop_last3_def
  starts_with_def py_lower_def py_upper_def ascii_lower_def ascii_upper_def py_strip_def
  is_space_def replace_char_def Let_def

lemmas eval_verses = inferno_1_def inferno_1_lines_def add_verse_def verse_urn_def
  short_cantica_def last_word_def is_token_char_def ssml_for_verso_def plain_db_def

lemma inferno_1_urns:
  "map v_urn inferno_1 =
     [cp ''inf.01.001'', cp ''inf.01.002'', cp ''inf.01.003'', cp ''inf.01.004'',
      cp ''inf.01.005'']"
  by (simp add: eval_verses eval_strings)

lemma inferno_1_numbers: "map v_number inferno_1 = [1, 2, 3, 4, 5]"
  by (simp add: eval_verses eval_strings)

lemma inferno_1_length: "length inferno_1 = 5"
  using arg_cong [OF inferno_1_numbers, of length] by simp

section \<open>Properties of the stanza grouper\<close>

lemma group_terzine_loop_closed:
  "i mod 3 = 0 \<Longrightarrow>
   group_terzine_loop vs i out =
     out @ map (\<lambda>k. terzina_of (take 3 (drop (3 * k) vs))) [i div 3..<length vs div 3]"
proof (induction vs i out rule: group_terzine_loop.induct)
  case (1 verses i out)
  show ?case
  proof (cases "i < length verses")
    case False
    then have "length verses div 3 \<le> i div 3"
      by (simp add: div_le_mono)
    with False show ?thesis
      by (simp add: group_terzine_loop.simps [of verses i])
  next
    case True
    show ?thesis
    proof (cases "length verses - i < 3")
      case short: True
      from True short "1.prems" have "length verses div 3 \<le> i div 3"
        by presburger
      with True short show ?thesis
        by (simp add: group_terzine_loop.simps [of verses i] py_slice_def)
    next
      case full: False
      from True full "1.prems" have lt: "i div 3 < length verses div 3"
        by presburger
      from "1.prems" have i3: "3 * (i div 3) = i" and next3: "(i + 3) div 3 = Suc (i div 3)"
        by presburger+
      have ih: "group_terzine_loop verses (i + 3) (out @ [terzina_of (py_slice verses i (i + 3))]) =
          (out @ [terzina_of (py_slice verses i (i + 3))]) @
          map (\<lambda>k. terzina_of (take 3 (drop (3 * k) verses)))
            [(i + 3) div 3..<length verses div 3]"
        using "1.IH" [OF True refl] full "1.prems" by (simp add: py_slice_def)
      have "[i div 3..<length verses div 3] = i div 3 # [Suc (i div 3)..<length verses div 3]"
        using lt by (simp add: upt_conv_Cons)
      with True full ih i3 next3 show ?thesis
        by (simp add: group_terzine_loop.simps [of verses i] py_slice_def)
    qed
  qed
qed

lemma group_terzine_closed:
  "group_terzine vs = map (\<lambda>k. terzina_of (take 3 (drop (3 * k) vs))) [0..<length vs div 3]"
  using group_terzine_loop_closed [of 0 vs "[]"] by (simp add: group_terzine_def)

lemma t_versi_terzina_of: "t_versi (terzina_of chunk) = map v_urn chunk"
  by (simp add: terzina_of_def Let_def)

lemma concat_chunks3:
  "concat (map (\<lambda>k. take 3 (drop (3 * k) xs)) [0..<n]) = take (3 * n) xs"
proof (induction n)
  case 0
  then show ?case by simp
next
  case (Suc n)
  have "take (3 * n) xs @ take 3 (drop (3 * n) xs) = take (3 * n + 3) xs"
    by (simp add: take_add)
  with Suc show ?case by (simp add: add.commute)
qed

text \<open>
  Claim C1. For a canto verse list of length n the stanza grouper emits exactly n div 3
  stanzas; stanza k is built from the three consecutive verses at indices 3k, 3k+1, 3k+2,
  in order from index 0, and a final group smaller than three is discarded. The
  concatenation of the stanzas' verse-identifier references is the verse-identifier
  sequence truncated to the largest multiple of three, and fewer than three verses give no
  stanza.
\<close>

theorem group_terzine_partition:
  "length (group_terzine vs) = length vs div 3
   \<and> group_terzine vs =
       map (\<lambda>k. terzina_of (take 3 (drop (3 * k) vs))) [0..<length vs div 3]
   \<and> (\<forall>k < length vs div 3. length (take 3 (drop (3 * k) vs)) = 3)
   \<and> concat (map t_versi (group_terzine vs)) = take (3 * (length vs div 3)) (map v_urn vs)
   \<and> (length vs < 3 \<longrightarrow> group_terzine vs = [])"
proof -
  have closed: "group_terzine vs =
      map (\<lambda>k. terzina_of (take 3 (drop (3 * k) vs))) [0..<length vs div 3]"
    by (rule group_terzine_closed)
  have len: "length (group_terzine vs) = length vs div 3"
    by (simp add: closed)
  have three: "\<forall>k < length vs div 3. length (take 3 (drop (3 * k) vs)) = 3"
    by auto
  have "concat (map t_versi (group_terzine vs)) =
      concat (map (\<lambda>k. take 3 (drop (3 * k) (map v_urn vs))) [0..<length vs div 3])"
    by (simp add: closed t_versi_terzina_of comp_def take_map drop_map)
  then have refs: "concat (map t_versi (group_terzine vs)) =
      take (3 * (length vs div 3)) (map v_urn vs)"
    by (simp only: concat_chunks3)
  have few: "length vs < 3 \<longrightarrow> group_terzine vs = []"
    by (simp add: closed)
  from len closed three refs few show ?thesis by blast
qed

theorem group_terzine_partition_witness:
  "length inferno_1 = 5
   \<and> 0 < length inferno_1 div 3
   \<and> length (group_terzine inferno_1) = 1
   \<and> concat (map t_versi (group_terzine inferno_1))
       = [cp ''inf.01.001'', cp ''inf.01.002'', cp ''inf.01.003'']
   \<and> length (take 2 inferno_1) < 3
   \<and> group_terzine (take 2 inferno_1) = []"
proof -
  note len = inferno_1_length
  note part = group_terzine_partition [of inferno_1]
  from part have "length (group_terzine inferno_1) = length inferno_1 div 3"
    by blast
  then have full: "length (group_terzine inferno_1) = 1"
    by (simp add: len)
  from part have "concat (map t_versi (group_terzine inferno_1))
      = take (3 * (length inferno_1 div 3)) (map v_urn inferno_1)"
    by blast
  then have refs: "concat (map t_versi (group_terzine inferno_1))
       = [cp ''inf.01.001'', cp ''inf.01.002'', cp ''inf.01.003'']"
    by (simp add: len inferno_1_urns)
  from group_terzine_partition [of "take 2 inferno_1"]
  have "length (take 2 inferno_1) < 3 \<longrightarrow> group_terzine (take 2 inferno_1) = []"
    by blast
  then have none: "group_terzine (take 2 inferno_1) = []"
    by (simp add: len)
  from len full refs none show ?thesis by simp
qed

section \<open>Properties of the recitation-block builder\<close>

lemma make_blocks_loop_windows:
  assumes B: "0 < B" and ov0: "0 \<le> ov"
  shows "\<exists>N. make_blocks_loop vs B ov i blocks =
            blocks @ map (\<lambda>j. block_of (take (nat B) (drop (i + j * nat (max 1 (B - ov))) vs))) [0..<N]
          \<and> (length vs \<le> i \<longrightarrow> N = 0)
          \<and> (i < length vs \<longrightarrow>
               1 \<le> N \<and> length vs \<le> i + (N - 1) * nat (max 1 (B - ov)) + nat B
               \<and> (\<forall>j. j < N - 1 \<longrightarrow> i + j * nat (max 1 (B - ov)) + nat B < length vs))"
proof (induction "length vs - i" arbitrary: i blocks rule: less_induct)
  case less
  define s where "s = nat (max 1 (B - ov))"
  have s1: "1 \<le> s" and sB: "s \<le> nat B"
    using B ov0 by (auto simp: s_def)
  have step: "nat (int i + max 1 (B - ov)) = i + s"
    by (simp add: s_def nat_add_distrib)
  have slice: "py_slice vs i (nat (int i + B)) = take (nat B) (drop i vs)"
    using B by (simp add: py_slice_def nat_add_distrib)
  show ?case
  proof (cases "i < length vs")
    case False
    then have "make_blocks_loop vs B ov i blocks = blocks"
      by (simp add: make_blocks_loop.simps [of vs B ov i] Let_def)
    with False show ?thesis
      by (intro exI [of _ 0]) simp
  next
    case True
    then have ne: "take (nat B) (drop i vs) \<noteq> []"
      using B by simp
    show ?thesis
    proof (cases "int (length vs) \<le> int i + B")
      case last: True
      from True ne last have "make_blocks_loop vs B ov i blocks =
          blocks @ [block_of (take (nat B) (drop i vs))]"
        by (simp add: make_blocks_loop.simps [of vs B ov i] Let_def slice)
      moreover from last B have "length vs \<le> i + nat B"
        by linarith
      ultimately show ?thesis
        using True by (intro exI [of _ 1]) simp
    next
      case more: False
      then have far: "i + nat B < length vs"
        using B by linarith
      with sB have next_in: "i + s < length vs"
        by linarith
      from True s1 have "length vs - (i + s) < length vs - i"
        by linarith
      from less [OF this, of "blocks @ [block_of (take (nat B) (drop i vs))]"]
      obtain N where
        eq: "make_blocks_loop vs B ov (i + s) (blocks @ [block_of (take (nat B) (drop i vs))]) =
             (blocks @ [block_of (take (nat B) (drop i vs))]) @
             map (\<lambda>j. block_of (take (nat B) (drop (i + s + j * s) vs))) [0..<N]"
        and N1: "1 \<le> N"
        and reach: "length vs \<le> i + s + (N - 1) * s + nat B"
        and before: "\<forall>j. j < N - 1 \<longrightarrow> i + s + j * s + nat B < length vs"
        using next_in unfolding s_def by blast
      from True ne more have unfold: "make_blocks_loop vs B ov i blocks =
          make_blocks_loop vs B ov (i + s) (blocks @ [block_of (take (nat B) (drop i vs))])"
        by (simp add: make_blocks_loop.simps [of vs B ov i] Let_def slice step)
      have shift: "map (\<lambda>j. block_of (take (nat B) (drop (i + j * s) vs))) [0..<Suc N] =
          block_of (take (nat B) (drop i vs)) #
          map (\<lambda>j. block_of (take (nat B) (drop (i + s + j * s) vs))) [0..<N]"
        by (simp add: upt_conv_Cons map_Suc_upt [symmetric] add.assoc del: upt_Suc)
      have "make_blocks_loop vs B ov i blocks =
          blocks @ map (\<lambda>j. block_of (take (nat B) (drop (i + j * s) vs))) [0..<Suc N]"
        by (simp only: unfold eq shift) simp
      moreover have "length vs \<le> i + (Suc N - 1) * s + nat B"
        using reach N1 by (cases N) (simp_all add: algebra_simps)
      moreover have "\<forall>j. j < Suc N - 1 \<longrightarrow> i + j * s + nat B < length vs"
      proof (intro allI impI)
        fix j assume j: "j < Suc N - 1"
        show "i + j * s + nat B < length vs"
        proof (cases j)
          case 0
          with far show ?thesis by simp
        next
          case (Suc k)
          with j have "k < N - 1" by simp
          with before have "i + s + k * s + nat B < length vs" by blast
          with Suc show ?thesis by (simp add: algebra_simps)
        qed
      qed
      ultimately show ?thesis
        using True unfolding s_def by (intro exI [of _ "Suc N"]) simp
    qed
  qed
qed

lemma make_blocks_five:
  assumes "length vs = 5"
  shows "make_blocks vs 3 1 = [block_of (take 3 vs), block_of (take 3 (drop 2 vs))]"
proof -
  from assms have ne: "vs \<noteq> []" "drop 2 vs \<noteq> []"
    by auto
  have a: "make_blocks_loop vs 3 1 0 [] =
      make_blocks_loop vs 3 1 2 [block_of (take 3 vs)]"
    using assms ne by (simp add: make_blocks_loop.simps [of vs 3 1 0] Let_def py_slice_def)
  have b: "make_blocks_loop vs 3 1 2 [block_of (take 3 vs)] =
      [block_of (take 3 vs), block_of (take 3 (drop 2 vs))]"
    using assms ne by (simp add: make_blocks_loop.simps [of vs 3 1 2] Let_def py_slice_def)
  show ?thesis
    by (simp add: make_blocks_def a b)
qed

lemma block_of_range: "chunk \<noteq> [] \<Longrightarrow>
  b_start_verso (block_of chunk) = v_number (hd chunk)
  \<and> b_end_verso (block_of chunk) = v_number (last chunk)"
  by (simp add: block_of_def Let_def)

text \<open>
  Claim C2. With a block size \<open>B\<close> and an overlap \<open>ov\<close> such that \<open>0 \<le> ov < B\<close>,
  the recitation-block builder uses the stride \<open>max 1 (B - ov)\<close>, starts at index 0 and
  emits one block for each of the windows of up to \<open>B\<close> consecutive verses at the
  offsets 0, stride, 2 stride, ..., each of them non-empty; every window but the last ends
  before the end of the list and the last one reaches it, so no window follows it. A
  non-positive block size gives no block, and five verses with \<open>B = 3\<close> and \<open>ov = 1\<close>
  give the two blocks over the verses 1 to 3 and 3 to 5.
\<close>

theorem make_blocks_windows:
  "(B \<le> 0 \<longrightarrow> make_blocks vs B ov = [])
   \<and> (0 \<le> ov \<and> ov < B \<longrightarrow>
        (\<exists>N. make_blocks vs B ov =
               map (\<lambda>j. block_of (take (nat B) (drop (j * nat (max 1 (B - ov))) vs))) [0..<N]
             \<and> (\<forall>j<N. take (nat B) (drop (j * nat (max 1 (B - ov))) vs) \<noteq> [])
             \<and> (vs = [] \<longrightarrow> N = 0)
             \<and> (vs \<noteq> [] \<longrightarrow>
                  1 \<le> N \<and> length vs \<le> (N - 1) * nat (max 1 (B - ov)) + nat B
                  \<and> (\<forall>j<N - 1. j * nat (max 1 (B - ov)) + nat B < length vs))))
   \<and> (length vs = 5 \<longrightarrow>
        make_blocks vs 3 1 = [block_of (take 3 vs), block_of (take 3 (drop 2 vs))])"
proof (intro conjI impI)
  assume "B \<le> 0"
  then show "make_blocks vs B ov = []"
    by (simp add: make_blocks_def)
next
  assume "length vs = 5"
  then show "make_blocks vs 3 1 = [block_of (take 3 vs), block_of (take 3 (drop 2 vs))]"
    by (rule make_blocks_five)
next
  assume h: "0 \<le> ov \<and> ov < B"
  define s where "s = nat (max 1 (B - ov))"
  from h have B: "0 < B" and ov0: "0 \<le> ov"
    by simp_all
  have sB: "s \<le> nat B"
    using h unfolding s_def by (cases "1 \<le> B - ov") (simp_all add: max_def nat_mono)
  from make_blocks_loop_windows [OF B ov0, of vs 0 "[]"]
  obtain N where
    eq: "make_blocks_loop vs B ov 0 [] =
         map (\<lambda>j. block_of (take (nat B) (drop (j * s) vs))) [0..<N]"
    and empty: "length vs \<le> 0 \<longrightarrow> N = 0"
    and full: "0 < length vs \<longrightarrow>
         1 \<le> N \<and> length vs \<le> (N - 1) * s + nat B
         \<and> (\<forall>j. j < N - 1 \<longrightarrow> j * s + nat B < length vs)"
    unfolding s_def by auto
  have nonempty: "\<forall>j<N. take (nat B) (drop (j * s) vs) \<noteq> []"
  proof (intro allI impI)
    fix j assume j: "j < N"
    with empty have pos: "0 < length vs"
      by (cases "length vs") auto
    have "j * s < length vs"
    proof (cases j)
      case 0
      with pos show ?thesis by simp
    next
      case (Suc k)
      with j have "k < N - 1" by simp
      with full pos have "k * s + nat B < length vs" by blast
      with sB Suc show ?thesis by simp
    qed
    with B show "take (nat B) (drop (j * s) vs) \<noteq> []"
      by simp
  qed
  from B have "make_blocks vs B ov = make_blocks_loop vs B ov 0 []"
    by (simp add: make_blocks_def)
  with eq nonempty empty full
  show "\<exists>N. make_blocks vs B ov =
               map (\<lambda>j. block_of (take (nat B) (drop (j * nat (max 1 (B - ov))) vs))) [0..<N]
             \<and> (\<forall>j<N. take (nat B) (drop (j * nat (max 1 (B - ov))) vs) \<noteq> [])
             \<and> (vs = [] \<longrightarrow> N = 0)
             \<and> (vs \<noteq> [] \<longrightarrow>
                  1 \<le> N \<and> length vs \<le> (N - 1) * nat (max 1 (B - ov)) + nat B
                  \<and> (\<forall>j<N - 1. j * nat (max 1 (B - ov)) + nat B < length vs))"
    unfolding s_def by (intro exI [of _ N]) simp
qed

theorem make_blocks_windows_witness:
  "make_blocks inferno_1 0 0 = []
   \<and> (0::int) \<le> 1 \<and> (1::int) < 3
   \<and> (\<exists>N. make_blocks inferno_1 3 1 =
            map (\<lambda>j. block_of (take 3 (drop (j * 2) inferno_1))) [0..<N]
          \<and> 1 \<le> N \<and> length inferno_1 \<le> (N - 1) * 2 + 3)
   \<and> length inferno_1 = 5
   \<and> make_blocks inferno_1 3 1
       = [block_of (take 3 inferno_1), block_of (take 3 (drop 2 inferno_1))]
   \<and> map (\<lambda>b. (b_start_verso b, b_end_verso b)) (make_blocks inferno_1 3 1) = [(1, 3), (3, 5)]"
proof -
  note len = inferno_1_length
  from len have ne: "inferno_1 \<noteq> []"
    by auto
  from make_blocks_windows [of 0 inferno_1 0] have none: "make_blocks inferno_1 0 0 = []"
    by blast
  have hyp: "0 \<le> (1::int) \<and> (1::int) < 3"
    by simp
  have stride: "nat (max 1 (3 - 1 :: int)) = 2" "nat (3::int) = 3"
    by simp_all
  from mp [OF conjunct1 [OF conjunct2 [OF make_blocks_windows [of 3 inferno_1 1]]] hyp] ne
  have windows: "\<exists>N. make_blocks inferno_1 3 1 =
            map (\<lambda>j. block_of (take 3 (drop (j * 2) inferno_1))) [0..<N]
          \<and> 1 \<le> N \<and> length inferno_1 \<le> (N - 1) * 2 + 3"
    unfolding stride by blast
  from make_blocks_windows [of 3 inferno_1 1] len
  have two: "make_blocks inferno_1 3 1
       = [block_of (take 3 inferno_1), block_of (take 3 (drop 2 inferno_1))]"
    by blast
  obtain a b c d e where vs: "inferno_1 = [a, b, c, d, e]"
    using len by (auto simp: length_Suc_conv eval_nat_numeral)
  from inferno_1_numbers have "v_number a = 1" "v_number c = 3" "v_number e = 5"
    unfolding vs by simp_all
  moreover from two have "make_blocks [a, b, c, d, e] 3 1 = [block_of [a, b, c], block_of [c, d, e]]"
    unfolding vs by simp
  ultimately have ranges:
    "map (\<lambda>b. (b_start_verso b, b_end_verso b)) (make_blocks inferno_1 3 1) = [(1, 3), (3, 5)]"
    unfolding vs by (simp add: block_of_range)
  from none windows len two ranges show ?thesis by simp
qed

section \<open>Properties of the pacing markup\<close>

text \<open>The pause after the verse with counter \<open>i\<close>, counted from 1 within the block.\<close>

lemma ssml_parts_shape:
  "concat (ssml_parts i ts) =
     concat (map (\<lambda>(k, t). cp ''<s>'' @ t @ cp ''</s>'' @
                   (if (i + k) mod 3 = 0 then cp ''<break time='220ms'/>''
                    else cp ''<break time='120ms'/>''))
              (enumerate 0 ts))"
proof (induction ts arbitrary: i)
  case Nil
  then show ?case by simp
next
  case (Cons t ts)
  have "enumerate 0 (t # ts) = (0, t) # map (\<lambda>(k, t). (Suc k, t)) (enumerate 0 ts)"
    by (auto simp: enumerate_Suc_eq apfst_def map_prod_def split_def)
  with Cons [of "i + 1"] show ?case
    by (simp add: comp_def split_def)
qed

text \<open>
  Claim C4. The markup of a block is to hold each verse's text entity-escaped (amp, lt, gt)
  and wrapped in one utterance marker, followed by a pause of 220ms after every third verse
  of the block and of 120ms otherwise, all inside one paragraph marker. \<open>ssml_block\<close>
  wraps and paces the texts so, but it copies them without escaping: for the verse text
  \<open>a&b\<close> the block holds \<open>a&b\<close>, whereas \<open>ssml_for_verso\<close> gives \<open>a&amp;b\<close> for the
  same text.
\<close>

theorem ssml_block_unescaped:
  "ssml_block [cp ''a&b''] = cp ''<p><s>a&b</s><break time='120ms'/></p>''
   \<and> ssml_for_verso (cp ''a&b'') = cp ''<s>a&amp;b</s>''
   \<and> ssml_block [cp ''a&b''] \<noteq> cp ''<p>'' @ ssml_for_verso (cp ''a&b'')
         @ cp ''<break time='120ms'/></p>''"
  by (simp add: ssml_block_def ssml_for_verso_def replace_char_def cp_def)

section \<open>The two variants of the grouping functions\<close>

lemma dec_digits: "set (dec n) \<subseteq> {48..57}"
proof (induction n rule: dec.induct)
  case (1 n)
  show ?case
  proof (cases "n < 10")
    case True
    then show ?thesis by (simp add: dec.simps [of n])
  next
    case False
    with 1 have "set (dec (n div 10)) \<subseteq> {48..57}" by simp
    moreover have "48 + n mod 10 \<in> {48..57::nat}" by simp
    ultimately show ?thesis using False by (simp add: dec.simps [of n])
  qed
qed

lemma dec_length: "n < 1000 \<Longrightarrow> length (dec n) \<le> 3"
proof -
  assume n: "n < 1000"
  have small: "\<And>k. k < 10 \<Longrightarrow> length (dec k) = 1"
    by (simp add: dec.simps)
  have mid: "\<And>k. k < 100 \<Longrightarrow> length (dec k) \<le> 2"
  proof -
    fix k :: nat assume "k < 100"
    then have "k div 10 < 10" by simp
    then show "length (dec k) \<le> 2"
      using small [of "k div 10"] small [of k] by (cases "k < 10") (simp_all add: dec.simps [of k])
  qed
  from n have "n div 10 < 100" by simp
  then show ?thesis
    using mid [of "n div 10"] small [of n] by (cases "n < 10") (simp_all add: dec.simps [of n])
qed

lemma fmt3_shape:
  assumes "0 \<le> x" "x \<le> 999"
  shows "length (fmt_0d 3 x) = 3 \<and> 46 \<notin> set (fmt_0d 3 x)"
proof -
  from assms have n: "nat x < 1000" by simp
  have len: "length (dec (nat x)) \<le> 3"
    using dec_length [OF n] .
  have digits: "46 \<notin> set (dec (nat x))"
    using dec_digits [of "nat x"] by auto
  from assms len digits show ?thesis
    by (simp add: fmt_0d_def zfill_def)
qed

lemma rsplit_dot_head_append:
  assumes "46 \<notin> set d"
  shows "rsplit_dot_head (p @ 46 # d) = p"
proof -
  from assms have "dropWhile (\<lambda>c. c \<noteq> 46) (rev d @ 46 # rev p) = 46 # rev p"
    by (subst dropWhile_append2) auto
  then show ?thesis
    by (simp add: rsplit_dot_head_def)
qed

lemma numbered_urn_prefix:
  assumes "numbered_urn v"
  shows "rsplit_dot_head (v_urn v) @ cp ''.'' = drop_last3 (v_urn v)"
proof -
  define u where "u = v_urn v"
  define d where "d = fmt_0d 3 (v_number v)"
  from assms have range: "0 \<le> v_number v" "v_number v \<le> 999"
    and tail: "drop (length u - 4) u = 46 # d"
    by (simp_all add: numbered_urn_def u_def d_def cp_def)
  from fmt3_shape [OF range] have len: "length d = 3" and nodot: "46 \<notin> set d"
    by (simp_all add: d_def)
  from arg_cong [OF tail, of length] len have long: "4 \<le> length u"
    by simp
  define p where "p = take (length u - 4) u"
  have split: "u = p @ 46 # d"
    using append_take_drop_id [of "length u - 4" u] tail by (simp add: p_def)
  have "rsplit_dot_head (p @ 46 # d) = p"
    by (rule rsplit_dot_head_append [OF nodot])
  moreover have "drop_last3 (p @ 46 # d) = p @ [46]"
    by (simp add: drop_last3_def len)
  ultimately show ?thesis
    using split by (simp add: cp_def u_def)
qed

text \<open>The identifiers that \<open>verse_urn\<close> builds have this shape.\<close>

lemma verse_urn_numbered:
  assumes "verse_urn U cantica canto n = Inr u" "0 \<le> n" "n \<le> 999"
  shows "drop (length u - 4) u = cp ''.'' @ fmt_0d 3 n"
proof -
  from assms(1) have "\<exists>sc. u = (sc @ cp ''.'' @ fmt_0d 2 canto) @ 46 # fmt_0d 3 n"
    by (auto simp: verse_urn_def cp_def split: sum.splits intro: sym)
  then obtain p where u: "u = p @ 46 # fmt_0d 3 n"
    by blast
  from fmt3_shape [OF assms(2,3)] have "length (fmt_0d 3 n) = 3"
    by simp
  then show ?thesis
    by (simp add: u cp_def)
qed

lemma make_ssml_parts_eq: "make_ssml_parts i ts = ssml_parts i ts"
  by (induction ts arbitrary: i) simp_all

lemma make_ssml_for_block_eq: "make_ssml_for_block ts = ssml_block ts"
  by (simp add: make_ssml_for_block_def ssml_block_def make_ssml_parts_eq)

lemma terzina_of_dp_eq:
  assumes "chunk \<noteq> []" "numbered_urn (hd chunk)"
  shows "terzina_of_dp chunk = terzina_of chunk"
proof -
  from numbered_urn_prefix [OF assms(2)]
  have "rsplit_dot_head (v_urn (hd chunk)) @ cp ''.'' = drop_last3 (v_urn (hd chunk))" .
  then have "rsplit_dot_head (v_urn (hd chunk)) @ cp ''.'' @ rest
      = drop_last3 (v_urn (hd chunk)) @ rest" for rest
    by (metis append.assoc)
  then show ?thesis
    by (simp add: terzina_of_dp_def terzina_of_def Let_def)
qed

lemma block_of_dp_eq:
  assumes "chunk \<noteq> []" "numbered_urn (hd chunk)"
  shows "block_of_dp chunk = block_of chunk"
proof -
  from numbered_urn_prefix [OF assms(2)]
  have "rsplit_dot_head (v_urn (hd chunk)) @ cp ''.'' = drop_last3 (v_urn (hd chunk))" .
  then have "rsplit_dot_head (v_urn (hd chunk)) @ cp ''.'' @ rest
      = drop_last3 (v_urn (hd chunk)) @ rest" for rest
    by (metis append.assoc)
  then show ?thesis
    by (simp add: block_of_dp_def block_of_def Let_def make_ssml_for_block_eq)
qed

lemma hd_slice_in_set: "py_slice vs i j \<noteq> [] \<Longrightarrow> hd (py_slice vs i j) \<in> set vs"
  by (metis hd_in_set in_set_dropD in_set_takeD py_slice_def)

lemma group_terzine_dp_loop_eq:
  "list_all (numbered_urn) vs \<Longrightarrow>
   group_terzine_dp_loop vs i out = group_terzine_loop vs i out"
proof (induction vs i out rule: group_terzine_loop.induct)
  case (1 verses i out)
  define chunk where "chunk = py_slice verses i (i + 3)"
  show ?case
  proof (cases "i < length verses \<and> \<not> length chunk < 3")
    case False
    then show ?thesis
      by (auto simp: group_terzine_dp_loop.simps [of verses i]
            group_terzine_loop.simps [of verses i] Let_def chunk_def)
  next
    case True
    then have ne: "chunk \<noteq> []"
      by auto
    then have "hd chunk \<in> set verses"
      unfolding chunk_def by (rule hd_slice_in_set)
    with "1.prems" have "numbered_urn (hd chunk)"
      by (simp add: list_all_iff)
    with ne have same: "terzina_of_dp chunk = terzina_of chunk"
      by (rule terzina_of_dp_eq)
    from True have "group_terzine_dp_loop verses (i + 3) (out @ [terzina_of chunk]) =
        group_terzine_loop verses (i + 3) (out @ [terzina_of chunk])"
      using "1.IH" [OF _ chunk_def [symmetric, THEN sym]] "1.prems" by (simp add: chunk_def)
    with True same show ?thesis
      by (simp add: group_terzine_dp_loop.simps [of verses i]
            group_terzine_loop.simps [of verses i] Let_def chunk_def [symmetric])
  qed
qed

lemma build_recitation_blocks_loop_eq:
  "list_all (numbered_urn) vs \<Longrightarrow>
   build_recitation_blocks_loop vs B ov i blocks = make_blocks_loop vs B ov i blocks"
proof (induction vs B ov i blocks rule: make_blocks_loop.induct)
  case (1 verses B ov i blocks)
  define chunk where "chunk = py_slice verses i (nat (int i + B))"
  show ?case
  proof (cases "i < length verses \<and> chunk \<noteq> [] \<and> \<not> int (length verses) \<le> int i + B")
    case True
    then have ne: "chunk \<noteq> []"
      by simp
    then have "hd chunk \<in> set verses"
      unfolding chunk_def by (rule hd_slice_in_set)
    with "1.prems" have "numbered_urn (hd chunk)"
      by (simp add: list_all_iff)
    with ne have same: "block_of_dp chunk = block_of chunk"
      by (rule block_of_dp_eq)
    from True have "build_recitation_blocks_loop verses B ov (nat (int i + max 1 (B - ov)))
          (blocks @ [block_of chunk]) =
        make_blocks_loop verses B ov (nat (int i + max 1 (B - ov))) (blocks @ [block_of chunk])"
      using "1.IH" "1.prems" by (simp add: chunk_def)
    with True same show ?thesis
      by (simp add: build_recitation_blocks_loop.simps [of verses B ov i]
            make_blocks_loop.simps [of verses B ov i] Let_def chunk_def [symmetric])
  next
    case False
    show ?thesis
    proof (cases "i < length verses \<and> chunk \<noteq> []")
      case stop: True
      then have "hd chunk \<in> set verses"
        unfolding chunk_def by (simp add: hd_slice_in_set)
      with "1.prems" have "numbered_urn (hd chunk)"
        by (simp add: list_all_iff)
      with stop have same: "block_of_dp chunk = block_of chunk"
        by (simp add: block_of_dp_eq)
      with stop False show ?thesis
        by (simp add: build_recitation_blocks_loop.simps [of verses B ov i]
              make_blocks_loop.simps [of verses B ov i] Let_def chunk_def [symmetric])
    next
      case none: False
      then show ?thesis
        by (auto simp: build_recitation_blocks_loop.simps [of verses B ov i]
              make_blocks_loop.simps [of verses B ov i] Let_def chunk_def [symmetric])
    qed
  qed
qed

text \<open>
  Claim C10, amended. The claim is worded for every verse list with verse numbers up to
  999; in that generality the two variants differ (theorem \<open>variants_differ\<close> below), because
  they derive the name of a group from the first verse's identifier in two ways. What holds
  is this: on a list of verses with verse numbers from 0 to 999, each with an identifier
  that ends in a dot and the verse's own number padded to three digits, as \<open>verse_urn\<close>
  and \<open>create_urn\<close> build it, \<open>group_terzine\<close> of divina_pipeline.py returns the records that
  \<open>group_terzine\<close> of divina_full_pipeline.py returns, and \<open>build_recitation_blocks\<close>
  the records that \<open>make_blocks\<close> returns, for every block size and overlap.
\<close>

theorem variants_agree:
  "list_all (numbered_urn) vs \<Longrightarrow>
   group_terzine_dp vs = group_terzine vs
   \<and> build_recitation_blocks vs B ov = make_blocks vs B ov"
  by (simp add: group_terzine_dp_def group_terzine_def build_recitation_blocks_def
        make_blocks_def group_terzine_dp_loop_eq build_recitation_blocks_loop_eq)

lemma inferno_1_numbered: "list_all numbered_urn inferno_1"
  by (simp add: numbered_urn_def eval_verses eval_strings)

theorem variants_agree_witness:
  "list_all numbered_urn inferno_1
   \<and> group_terzine_dp inferno_1 = group_terzine inferno_1
   \<and> length (group_terzine_dp inferno_1) = 1
   \<and> build_recitation_blocks inferno_1 3 1 = make_blocks inferno_1 3 1
   \<and> length (build_recitation_blocks inferno_1 3 1) = 2"
proof -
  note same = variants_agree [OF inferno_1_numbered, of 3 1]
  have "length (group_terzine inferno_1) = 1"
    by (simp add: group_terzine_closed inferno_1_length)
  moreover have "length (make_blocks inferno_1 3 1) = 2"
    by (simp add: make_blocks_five [OF inferno_1_length])
  ultimately show ?thesis
    using same inferno_1_numbered by simp
qed

lemma negative_verses_urns:
  "map (\<lambda>v. verse_urn plain_db (cp ''Inferno'') 1 (v_number v)) negative_verses =
   map (\<lambda>v. Inr (v_urn v)) negative_verses"
  by (simp add: negative_verses_def verse_record_def verse_urn_def short_cantica_def
        plain_db_def eval_strings)

lemmas eval_variants = verse_record_def group_terzine_closed
  terzina_of_def group_terzine_dp_def group_terzine_dp_loop.simps terzina_of_dp_def
  rsplit_dot_head_def make_blocks_def make_blocks_loop.simps block_of_def
  build_recitation_blocks_def build_recitation_blocks_loop.simps block_of_dp_def
  py_slice_def

text \<open>
  The claim C10 as it is worded, for every verse list with verse numbers up to 999, does
  not hold. On three verses numbered 1 to 3 with the identifiers \<open>ab\<close>, \<open>c.d\<close> and \<open>e\<close>,
  full-document \<open>group_terzine\<close> and \<open>make_blocks\<close> cut the last three characters off the
  first identifier and name the group \<open>001-003\<close>, while the single-canto functions keep
  what precedes the last dot, here the whole identifier, and name it \<open>ab.001-003\<close>. On
  three verses with the identifiers of \<open>verse_urn\<close> for the numbers -100 to -98, the first
  gives \<open>inf.01.--100--98\<close> and the second \<open>inf.01.-100--98\<close>.
\<close>

theorem variants_differ:
  "map v_number loose_verses = [1, 2, 3]
   \<and> map t_urn (group_terzine loose_verses) = [cp ''001-003'']
   \<and> map t_urn (group_terzine_dp loose_verses) = [cp ''ab.001-003'']
   \<and> map b_urn (make_blocks loose_verses 3 0) = [cp ''001-003'']
   \<and> map b_urn (build_recitation_blocks loose_verses 3 0) = [cp ''ab.001-003'']
   \<and> group_terzine_dp loose_verses \<noteq> group_terzine loose_verses
   \<and> build_recitation_blocks loose_verses 3 0 \<noteq> make_blocks loose_verses 3 0
   \<and> map v_number negative_verses = [- 100, - 99, - 98]
   \<and> map t_urn (group_terzine negative_verses) = [cp ''inf.01.--100--98'']
   \<and> map t_urn (group_terzine_dp negative_verses) = [cp ''inf.01.-100--98'']
   \<and> map b_urn (make_blocks negative_verses 3 0) = [cp ''inf.01.--100--98'']
   \<and> map b_urn (build_recitation_blocks negative_verses 3 0) = [cp ''inf.01.-100--98'']
   \<and> group_terzine_dp negative_verses \<noteq> group_terzine negative_verses
   \<and> build_recitation_blocks negative_verses 3 0 \<noteq> make_blocks negative_verses 3 0"
proof -
  have n1: "map v_number loose_verses = [1, 2, 3]"
    by (simp add: loose_verses_def verse_record_def)
  have t1: "map t_urn (group_terzine loose_verses) = [cp ''001-003'']"
    by (simp add: loose_verses_def eval_variants eval_strings)
  have t2: "map t_urn (group_terzine_dp loose_verses) = [cp ''ab.001-003'']"
    by (simp add: loose_verses_def eval_variants eval_strings)
  have b1: "map b_urn (make_blocks loose_verses 3 0) = [cp ''001-003'']"
    by (simp add: loose_verses_def eval_variants eval_strings)
  have b2: "map b_urn (build_recitation_blocks loose_verses 3 0) = [cp ''ab.001-003'']"
    by (simp add: loose_verses_def eval_variants eval_strings)
  have d1: "cp ''ab.001-003'' \<noteq> cp ''001-003''"
    by (simp add: cp_def)
  have t3: "group_terzine_dp loose_verses \<noteq> group_terzine loose_verses"
  proof
    assume "group_terzine_dp loose_verses = group_terzine loose_verses"
    then have "map t_urn (group_terzine_dp loose_verses) = map t_urn (group_terzine loose_verses)"
      by (rule arg_cong)
    with t1 t2 d1 show False
      by simp
  qed
  have b3: "build_recitation_blocks loose_verses 3 0 \<noteq> make_blocks loose_verses 3 0"
  proof
    assume "build_recitation_blocks loose_verses 3 0 = make_blocks loose_verses 3 0"
    then have "map b_urn (build_recitation_blocks loose_verses 3 0) =
        map b_urn (make_blocks loose_verses 3 0)"
      by (rule arg_cong)
    with b1 b2 d1 show False
      by simp
  qed
  have n2: "map v_number negative_verses = [- 100, - 99, - 98]"
    by (simp add: negative_verses_def verse_record_def)
  have t4: "map t_urn (group_terzine negative_verses) = [cp ''inf.01.--100--98'']"
    by (simp add: negative_verses_def eval_variants eval_strings)
  have t5: "map t_urn (group_terzine_dp negative_verses) = [cp ''inf.01.-100--98'']"
    by (simp add: negative_verses_def eval_variants eval_strings)
  have b4: "map b_urn (make_blocks negative_verses 3 0) = [cp ''inf.01.--100--98'']"
    by (simp add: negative_verses_def eval_variants eval_strings)
  have b5: "map b_urn (build_recitation_blocks negative_verses 3 0) = [cp ''inf.01.-100--98'']"
    by (simp add: negative_verses_def eval_variants eval_strings)
  have d2: "cp ''inf.01.-100--98'' \<noteq> cp ''inf.01.--100--98''"
    by (simp add: cp_def)
  have t6: "group_terzine_dp negative_verses \<noteq> group_terzine negative_verses"
  proof
    assume "group_terzine_dp negative_verses = group_terzine negative_verses"
    then have "map t_urn (group_terzine_dp negative_verses) =
        map t_urn (group_terzine negative_verses)"
      by (rule arg_cong)
    with t4 t5 d2 show False
      by simp
  qed
  have b6: "build_recitation_blocks negative_verses 3 0 \<noteq> make_blocks negative_verses 3 0"
  proof
    assume "build_recitation_blocks negative_verses 3 0 = make_blocks negative_verses 3 0"
    then have "map b_urn (build_recitation_blocks negative_verses 3 0) =
        map b_urn (make_blocks negative_verses 3 0)"
      by (rule arg_cong)
    with b4 b5 d2 show False
      by simp
  qed
  from n1 t1 t2 b1 b2 t3 b3 n2 t4 t5 b4 b5 t6 b6 show ?thesis
    by (intro conjI)
qed

section \<open>Properties of the part short code\<close>

lemma short_cantica_cases:
  "short_cantica U cantica =
     (if starts_with (py_lower U (py_strip cantica)) (cp ''inf'') then Inr (cp ''inf'')
      else if starts_with (py_lower U (py_strip cantica)) (cp ''pur'') then Inr (cp ''purg'')
      else if starts_with (py_lower U (py_strip cantica)) (cp ''par'') then Inr (cp ''par'')
      else Inl ValueError)"
  by (simp add: short_cantica_def Let_def)

lemma short_cantica_raises_iff:
  "(\<exists>e. short_cantica U cantica = Inl e) \<longleftrightarrow>
     \<not> (starts_with (py_lower U (py_strip cantica)) (cp ''inf'')
        \<or> starts_with (py_lower U (py_strip cantica)) (cp ''pur'')
        \<or> starts_with (py_lower U (py_strip cantica)) (cp ''par''))"
  by (simp add: short_cantica_cases)

lemma short_cantica_titles:
  "short_cantica U (cp ''Inferno'') = Inr (cp ''inf'')"
  "short_cantica U (cp ''Purgatorio'') = Inr (cp ''purg'')"
  "short_cantica U (cp ''Paradiso'') = Inr (cp ''par'')"
  by (simp_all add: short_cantica_def eval_strings)

lemmas eval_regex = word_def iword_def seqs_def alts_def Plus_def Opt_def ws_def upper_it_def
  CANTO_HEADER_RE_def CANTICA_HEADER_RE_def cantica_names_def HEADER_PATTERNS_def
  FOOTER_PATTERNS_def ILLUSTRATION_PATTERNS_def CAPS_RE_def looks_like_noise_def re_match_def
  sre_key_def is_decimal_def is_word_def

lemma dotted_inferno_is_header:
  "re_match U CANTICA_HEADER_RE (304 # cp ''NFERNO'')"
  by (simp add: eval_regex eval_strings)

lemma dotted_inferno_step:
  assumes "ud_upper U (304 # cp ''NFERNO'') = 304 # cp ''NFERNO''"
  shows "step U cfg page_idx init_state (304 # cp ''NFERNO'') = Inl KeyError"
proof -
  have "py_upper U (py_strip (304 # cp ''NFERNO'')) = 304 # cp ''NFERNO''"
    using assms by (simp add: py_upper_def py_strip_def is_space_def cp_def)
  moreover have "map_of CANTICHE_TITLES (304 # cp ''NFERNO'') = None"
    by (simp add: CANTICHE_TITLES_def cp_def)
  moreover have "close_canto U cfg (page_idx - 1) init_state = Inr init_state"
    by (simp add: close_canto_def init_state_def)
  ultimately show ?thesis
    using dotted_inferno_is_header [of U] by (simp add: step_def Let_def)
qed

text \<open>
  Claim C7. Deriving a part short code raises exactly when the trimmed, lower-cased part
  name starts with none of \<open>inf\<close>, \<open>pur\<close>, \<open>par\<close>, and gives \<open>inf\<close>, \<open>purg\<close>, \<open>par\<close>
  otherwise (\<open>short_cantica_raises_iff\<close>, \<open>short_cantica_cases\<close>); no other core
  operation is to raise. The segmenter does raise: the line that consists of the capital I
  with dot above, U+0130, and \<open>NFERNO\<close> matches the part heading pattern, which ignores
  case, but its upper-case form is not a key of \<open>CANTICHE_TITLES\<close>, so the run ends with
  KeyError.
\<close>

theorem part_heading_key_error:
  "run_pipeline plain_db sample_cfg [[304 # cp ''NFERNO'']] = Inl KeyError"
proof -
  have line: "page_lines [304 # cp ''NFERNO''] = [304 # cp ''NFERNO'']"
    by (simp add: page_lines_def clean_line_def eval_strings)
  have "ud_upper plain_db (304 # cp ''NFERNO'') = 304 # cp ''NFERNO''"
    by (simp add: plain_db_def ascii_upper_def cp_def)
  from dotted_inferno_step [OF this]
  have "step plain_db sample_cfg 0 init_state (304 # cp ''NFERNO'') = Inl KeyError" .
  with line show ?thesis
    by (simp add: run_pipeline_def)
qed

section \<open>The segmenter keeps its invariant\<close>

lemma contiguous_Nil: "contiguous []"
  by (simp add: contiguous_def)

lemma contiguous_snoc:
  "contiguous ks \<Longrightarrow> contiguous (ks @ [int (length ks) + 1])"
  by (simp add: contiguous_def)

lemma titles_short:
  "c \<in> snd ` set CANTICHE_TITLES \<Longrightarrow> \<exists>sc. short_cantica U c = Inr sc"
  by (auto simp: CANTICHE_TITLES_def short_cantica_titles)

lemma seg_inv_init: "seg_inv U init_state"
  by (simp add: seg_inv_def init_state_def part_cantos_def cantos_written_def contiguous_Nil)

lemma add_verse_ok:
  assumes "canto_ok U (cb_cantica buf) (cb_canto_num buf) (cb_verses buf)"
  shows "\<exists>buf'. add_verse U buf text = Inr buf'
           \<and> cb_cantica buf' = cb_cantica buf \<and> cb_canto_num buf' = cb_canto_num buf
           \<and> length (cb_verses buf') = Suc (length (cb_verses buf))
           \<and> canto_ok U (cb_cantica buf') (cb_canto_num buf') (cb_verses buf')"
proof -
  from assms obtain sc where sc: "short_cantica U (cb_cantica buf) = Inr sc"
    using titles_short by (auto simp: canto_ok_def)
  from assms have "contiguous (map v_number (cb_verses buf))"
    by (simp add: canto_ok_def)
  from contiguous_snoc [OF this]
  have "contiguous (map v_number (cb_verses buf) @ [int (length (cb_verses buf)) + 1])"
    by simp
  with assms sc show ?thesis
    by (simp add: add_verse_def verse_urn_def Let_def canto_ok_def)
qed

lemma close_canto_None: "canto_buf st = None \<Longrightarrow> close_canto U cfg e st = Inr st"
  by (simp add: close_canto_def)

lemma close_canto_Some:
  assumes inv: "seg_inv U st" and buf: "canto_buf st = Some b"
  shows "\<exists>sc. short_cantica U (cb_cantica b) = Inr sc \<and>
     close_canto U cfg e st =
       Inr (st\<lparr> written := written st @
                 [(path_join (cfg_outdir cfg)
                     (sc @ cp ''_'' @ fmt_0d 2 (cb_canto_num b) @ cp ''.json''),
                   to_json b (cfg_pdf cfg)
                     ((case canto_start_page st of None \<Rightarrow> 0 | Some p \<Rightarrow> p) + 1, e + 1)
                     (cfg_block_size cfg) (cfg_block_overlap cfg))],
              manifest_canti := manifest_canti st @
                 [\<lparr> me_cantica = Some (cb_cantica b),
                    me_canto = Some (cb_canto_num b),
                    me_file = path_join (cfg_outdir cfg)
                      (sc @ cp ''_'' @ fmt_0d 2 (cb_canto_num b) @ cp ''.json''),
                    me_counts = cj_counts (to_json b (cfg_pdf cfg)
                      ((case canto_start_page st of None \<Rightarrow> 0 | Some p \<Rightarrow> p) + 1, e + 1)
                      (cfg_block_size cfg) (cfg_block_overlap cfg)) \<rparr>],
              canto_buf := None,
              current_canto_num := None,
              canto_start_page := None \<rparr>)"
proof -
  from inv buf have cur: "current_cantica st = Some (cb_cantica b)"
    and num: "current_canto_num st = Some (cb_canto_num b)"
    and ok: "canto_ok U (cb_cantica b) (cb_canto_num b) (cb_verses b)"
    by (simp_all add: seg_inv_def)
  from ok obtain sc where sc: "short_cantica U (cb_cantica b) = Inr sc"
    using titles_short by (auto simp: canto_ok_def)
  with buf cur num show ?thesis
    by (simp add: close_canto_def Let_def)
qed

lemma close_canto_inv:
  assumes inv: "seg_inv U st"
  shows "\<exists>st'. close_canto U cfg e st = Inr st' \<and> seg_inv U st'
           \<and> canto_buf st' = None
           \<and> current_cantica st' = current_cantica st
           \<and> last_canto st' = last_canto st
           \<and> (\<forall>c. part_cantos c st' = part_cantos c st)"
proof (cases "canto_buf st")
  case None
  with inv show ?thesis
    by (simp add: close_canto_None)
next
  case (Some b)
  from close_canto_Some [OF inv Some, of cfg e] obtain sc st' where
    st': "close_canto U cfg e st = Inr st'"
    and w: "written st' = written st @
        [(path_join (cfg_outdir cfg) (sc @ cp ''_'' @ fmt_0d 2 (cb_canto_num b) @ cp ''.json''),
          to_json b (cfg_pdf cfg)
            ((case canto_start_page st of None \<Rightarrow> 0 | Some p \<Rightarrow> p) + 1, e + 1)
            (cfg_block_size cfg) (cfg_block_overlap cfg))]"
    and other: "canto_buf st' = None" "current_cantica st' = current_cantica st"
       "last_canto st' = last_canto st"
    by auto
  have json: "cj_cantica (to_json b pdf pages bs bo) = cb_cantica b"
    "cj_canto (to_json b pdf pages bs bo) = cb_canto_num b"
    "cj_versi (to_json b pdf pages bs bo) = cb_verses b" for pdf pages bs bo
    by (simp_all add: to_json_def Let_def)
  have parts: "part_cantos c st' = part_cantos c st" for c
    using Some other w by (simp add: part_cantos_def cantos_written_def json)
  from inv Some have ok: "canto_ok U (cb_cantica b) (cb_canto_num b) (cb_verses b)"
    by (simp add: seg_inv_def)
  from inv ok w other parts have "seg_inv U st'"
    by (simp add: seg_inv_def json)
  with st' other parts show ?thesis
    by simp
qed
lemma seg_invI:
  assumes "list_all (\<lambda>d. canto_ok U (cj_cantica d) (cj_canto d) (cj_versi d))
             (map snd (written st))"
    and "\<And>c. contiguous (part_cantos c st)"
    and "\<And>c. last_canto st c =
           (if part_cantos c st = [] then None else Some (int (length (part_cantos c st))))"
    and "\<And>b. canto_buf st = Some b \<Longrightarrow>
           current_cantica st = Some (cb_cantica b)
           \<and> current_canto_num st = Some (cb_canto_num b)
           \<and> canto_ok U (cb_cantica b) (cb_canto_num b) (cb_verses b)"
    and "\<And>c. current_cantica st = Some c \<Longrightarrow> c \<in> snd ` set CANTICHE_TITLES"
  shows "seg_inv U st"
  using assms by (simp add: seg_inv_def split: option.splits)

lemma seg_invD:
  assumes "seg_inv U st"
  shows "list_all (\<lambda>d. canto_ok U (cj_cantica d) (cj_canto d) (cj_versi d))
           (map snd (written st))"
    and "contiguous (part_cantos c st)"
    and "last_canto st c =
           (if part_cantos c st = [] then None else Some (int (length (part_cantos c st))))"
    and "canto_buf st = Some b \<Longrightarrow>
           current_cantica st = Some (cb_cantica b)
           \<and> current_canto_num st = Some (cb_canto_num b)
           \<and> canto_ok U (cb_cantica b) (cb_canto_num b) (cb_verses b)"
    and "current_cantica st = Some c' \<Longrightarrow> c' \<in> snd ` set CANTICHE_TITLES"
  using assms by (simp_all add: seg_inv_def)

lemma open_canto_inv:
  assumes inv: "seg_inv U st1" and closed: "canto_buf st1 = None"
    and cur: "current_cantica st1 = Some c"
    and n: "n = (case last_canto st1 c of None \<Rightarrow> 1 | Some k \<Rightarrow> k + 1)"
    and st2: "st2 = st1\<lparr> last_canto := (last_canto st1)(c \<mapsto> n),
            current_canto_num := Some n,
            canto_buf := Some \<lparr> cb_cantica = c, cb_canto_num = n, cb_verses = [] \<rparr>,
            canto_start_page := Some page_idx \<rparr>"
  shows "seg_inv U st2"
proof (rule seg_invI)
  note d = seg_invD [OF inv]
  from d(3) [of c] n have n': "n = int (length (part_cantos c st1)) + 1"
    by simp
  have title: "c \<in> snd ` set CANTICHE_TITLES"
    using d(5) [OF cur] .
  have pc: "part_cantos c' st2 = (if c' = c then part_cantos c st1 @ [n] else part_cantos c' st1)"
    for c'
    using closed by (auto simp: st2 part_cantos_def cantos_written_def)
  show "list_all (\<lambda>d. canto_ok U (cj_cantica d) (cj_canto d) (cj_versi d))
          (map snd (written st2))"
    using d(1) by (simp add: st2)
  show "contiguous (part_cantos c' st2)" for c'
    using d(2) [of c'] contiguous_snoc [OF d(2) [of c]] by (simp add: pc n')
  show "last_canto st2 c' =
      (if part_cantos c' st2 = [] then None else Some (int (length (part_cantos c' st2))))" for c'
    using d(3) [of c'] by (simp add: pc n') (simp add: st2 n')
  show "current_cantica st2 = Some (cb_cantica b)
      \<and> current_canto_num st2 = Some (cb_canto_num b)
      \<and> canto_ok U (cb_cantica b) (cb_canto_num b) (cb_verses b)"
    if "canto_buf st2 = Some b" for b
  proof -
    from that have b: "b = \<lparr> cb_cantica = c, cb_canto_num = n, cb_verses = [] \<rparr>"
      by (simp add: st2)
    show ?thesis
      using cur title unfolding b by (simp add: st2 canto_ok_def contiguous_Nil)
  qed
  show "c' \<in> snd ` set CANTICHE_TITLES" if "current_cantica st2 = Some c'" for c'
    using that cur title by (simp add: st2)
qed

lemma step_inv:
  assumes inv: "seg_inv U st" and step: "step U cfg page_idx st line = Inr st'"
  shows "seg_inv U st'"
proof -
  from close_canto_inv [OF inv, of cfg "page_idx - 1"] obtain st1 where
    close: "close_canto U cfg (page_idx - 1) st = Inr st1" and inv1: "seg_inv U st1"
    and closed: "canto_buf st1 = None" and cur1: "current_cantica st1 = current_cantica st"
    by blast
  consider (part) "re_match U CANTICA_HEADER_RE line"
    | (canto) "\<not> re_match U CANTICA_HEADER_RE line" "re_match U CANTO_HEADER_RE line"
    | (other) "\<not> re_match U CANTICA_HEADER_RE line" "\<not> re_match U CANTO_HEADER_RE line"
    by blast
  then show ?thesis
  proof cases
    case part
    with step close obtain name where
      name: "map_of CANTICHE_TITLES (py_upper U (py_strip line)) = Some name"
      and st': "st' = st1\<lparr>current_cantica := Some name\<rparr>"
      by (auto simp: step_def Let_def split: option.splits)
    from name have "name \<in> snd ` set CANTICHE_TITLES"
      by (metis map_of_SomeD snd_conv image_eqI)
    have pc: "part_cantos c st' = part_cantos c st1" for c
      by (simp add: st' part_cantos_def cantos_written_def)
    note d = seg_invD [OF inv1]
    show ?thesis
    proof (rule seg_invI)
      show "list_all (\<lambda>d. canto_ok U (cj_cantica d) (cj_canto d) (cj_versi d))
          (map snd (written st'))"
        using d(1) by (simp add: st')
      show "contiguous (part_cantos c st')" for c
        using d(2) [of c] by (simp add: pc)
      show "last_canto st' c =
          (if part_cantos c st' = [] then None else Some (int (length (part_cantos c st'))))" for c
        using d(3) [of c] by (simp add: pc) (simp add: st')
      show "current_cantica st' = Some (cb_cantica b)
          \<and> current_canto_num st' = Some (cb_canto_num b)
          \<and> canto_ok U (cb_cantica b) (cb_canto_num b) (cb_verses b)"
        if "canto_buf st' = Some b" for b
        using that closed by (simp add: st')
      show "c \<in> snd ` set CANTICHE_TITLES" if "current_cantica st' = Some c" for c
        using that \<open>name \<in> snd ` set CANTICHE_TITLES\<close> by (simp add: st')
    qed
  next
    case canto
    show ?thesis
    proof (cases "current_cantica st")
      case None
      with canto step inv show ?thesis
        by (simp add: step_def)
    next
      case (Some c)
      with cur1 have cur: "current_cantica st1 = Some c"
        by simp
      define n where "n = (case last_canto st1 c of None \<Rightarrow> 1 | Some k \<Rightarrow> k + 1)"
      from canto step close Some have "st' =
          st1\<lparr> last_canto := (last_canto st1)(c \<mapsto> n),
                current_canto_num := Some n,
                canto_buf := Some \<lparr> cb_cantica = c, cb_canto_num = n, cb_verses = [] \<rparr>,
                canto_start_page := Some page_idx \<rparr>"
        by (simp add: step_def Let_def n_def)
      from open_canto_inv [OF inv1 closed cur n_def this] show ?thesis .
    qed
  next
    case other
    show ?thesis
    proof (cases "canto_buf st")
      case None
      with other step inv show ?thesis
        by (simp add: step_def)
    next
      case (Some buf)
      show ?thesis
      proof (cases "is_probable_verse U line")
        case False
        with other step inv Some show ?thesis
          by (simp add: step_def)
      next
        case True
        from inv Some have ok: "canto_ok U (cb_cantica buf) (cb_canto_num buf) (cb_verses buf)"
          and cur: "current_cantica st = Some (cb_cantica buf)"
          and num: "current_canto_num st = Some (cb_canto_num buf)"
          by (simp_all add: seg_inv_def)
        from add_verse_ok [OF ok, of line] obtain buf' where
          add: "add_verse U buf line = Inr buf'"
          and same: "cb_cantica buf' = cb_cantica buf" "cb_canto_num buf' = cb_canto_num buf"
          and ok': "canto_ok U (cb_cantica buf') (cb_canto_num buf') (cb_verses buf')"
          by blast
        from other step Some True add have st': "st' = st\<lparr>canto_buf := Some buf'\<rparr>"
          by (simp add: step_def)
        have pc: "part_cantos c st' = part_cantos c st" for c
          using Some same by (simp add: st' part_cantos_def cantos_written_def)
        note d = seg_invD [OF inv]
        show ?thesis
        proof (rule seg_invI)
          show "list_all (\<lambda>d. canto_ok U (cj_cantica d) (cj_canto d) (cj_versi d))
              (map snd (written st'))"
            using d(1) by (simp add: st')
          show "contiguous (part_cantos c st')" for c
            using d(2) [of c] by (simp add: pc)
          show "last_canto st' c =
              (if part_cantos c st' = [] then None
               else Some (int (length (part_cantos c st'))))" for c
            using d(3) [of c] by (simp add: pc) (simp add: st')
          show "current_cantica st' = Some (cb_cantica b)
              \<and> current_canto_num st' = Some (cb_canto_num b)
              \<and> canto_ok U (cb_cantica b) (cb_canto_num b) (cb_verses b)"
            if "canto_buf st' = Some b" for b
            using that same ok' cur num by (auto simp: st')
          show "c \<in> snd ` set CANTICHE_TITLES" if "current_cantica st' = Some c" for c
            using that d(5) [of c] by (simp add: st')
        qed
      qed
    qed
  qed
qed

text \<open>The only exception of a step is the KeyError of a part heading.\<close>

lemma step_error:
  assumes inv: "seg_inv U st" and step: "step U cfg page_idx st line = Inl e"
  shows "e = KeyError \<and> re_match U CANTICA_HEADER_RE line
     \<and> map_of CANTICHE_TITLES (py_upper U (py_strip line)) = None"
proof -
  from close_canto_inv [OF inv, of cfg "page_idx - 1"] obtain st1 where
    close: "close_canto U cfg (page_idx - 1) st = Inr st1"
    by blast
  show ?thesis
  proof (cases "re_match U CANTICA_HEADER_RE line")
    case True
    with step close show ?thesis
      by (auto simp: step_def Let_def split: option.splits)
  next
    case False
    show ?thesis
    proof (cases "canto_buf st")
      case None
      with False step close show ?thesis
        by (auto simp: step_def Let_def split: option.splits if_splits)
    next
      case (Some buf)
      with inv have "canto_ok U (cb_cantica buf) (cb_canto_num buf) (cb_verses buf)"
        by (simp add: seg_inv_def)
      from add_verse_ok [OF this, of line] obtain buf' where
        "add_verse U buf line = Inr buf'"
        by blast
      with False step close Some show ?thesis
        by (auto simp: step_def Let_def split: option.splits if_splits)
    qed
  qed
qed

lemma run_lines_inv:
  "seg_inv U st \<Longrightarrow> run_lines U cfg page_idx st lines = Inr st' \<Longrightarrow> seg_inv U st'"
proof (induction lines arbitrary: st)
  case Nil
  then show ?case by simp
next
  case (Cons line lines)
  then show ?case
    by (auto split: sum.splits dest: step_inv)
qed

lemma run_pages_inv:
  "seg_inv U st \<Longrightarrow> run_pages U cfg page_idx st pages = Inr st' \<Longrightarrow> seg_inv U st'"
proof (induction pages arbitrary: st page_idx)
  case Nil
  then show ?case by simp
next
  case (Cons lines pages)
  then show ?case
    by (auto split: sum.splits dest: run_lines_inv)
qed

lemma run_pipeline_inv:
  assumes "run_pipeline U cfg raw_pages = Inr st"
  shows "seg_inv U st \<and> canto_buf st = None"
proof -
  from assms obtain st0 where
    pages: "run_pages U cfg 0 init_state (map page_lines raw_pages) = Inr st0"
    and close: "close_canto U cfg (int (length (map page_lines raw_pages)) - 1) st0 = Inr st"
    by (auto simp: run_pipeline_def Let_def split: sum.splits)
  from run_pages_inv [OF seg_inv_init pages] have "seg_inv U st0" .
  from close_canto_inv [OF this, of cfg "int (length (map page_lines raw_pages)) - 1"] close
  show ?thesis
    by auto
qed

text \<open>
  Claim C6. In every run of the segmenter that returns, the verse numbers of each written
  canto count up from 1 in the order of the verses, and for each part the canto numbers of
  its written cantos count up from 1 in the order of writing, whatever the headings say
  and however the parts alternate.
\<close>

theorem run_numbering:
  "run_pipeline U cfg raw_pages = Inr st \<Longrightarrow>
   list_all (\<lambda>d. contiguous (map v_number (cj_versi d))) (map snd (written st))
   \<and> (\<forall>c. contiguous (cantos_written c st))"
proof -
  assume "run_pipeline U cfg raw_pages = Inr st"
  from run_pipeline_inv [OF this] have inv: "seg_inv U st" and closed: "canto_buf st = None"
    by simp_all
  from inv have "list_all (\<lambda>d. canto_ok U (cj_cantica d) (cj_canto d) (cj_versi d))
      (map snd (written st))"
    by (simp add: seg_inv_def)
  then have verses: "list_all (\<lambda>d. contiguous (map v_number (cj_versi d))) (map snd (written st))"
    by (simp add: list_all_iff canto_ok_def)
  from inv closed have "contiguous (cantos_written c st)" for c
    by (auto simp: seg_inv_def part_cantos_def)
  with verses show ?thesis
    by simp
qed
section \<open>Evaluation of the sample run\<close>

lemma demo_clean: "map page_lines demo_pages = demo_pages"
  by (simp add: demo_pages_def page_lines_def clean_line_def eval_strings)

lemma demo_part_lines:
  "re_match U CANTICA_HEADER_RE (cp ''INFERNO'')"
  "re_match U CANTICA_HEADER_RE (cp ''PURGATORIO'')"
  "\<not> re_match U CANTICA_HEADER_RE (cp ''LA DIVINA COMMEDIA'')"
  "\<not> re_match U CANTICA_HEADER_RE (cp ''CANTO PRIMO'')"
  "\<not> re_match U CANTICA_HEADER_RE (cp ''CANTO SECONDO'')"
  "\<not> re_match U CANTICA_HEADER_RE (cp ''CANTO TERZO'')"
  "\<not> re_match U CANTICA_HEADER_RE (cp ''5'')"
  "\<not> re_match U CANTICA_HEADER_RE (cp ''Nel mezzo del cammin di nostra vita'')"
  "\<not> re_match U CANTICA_HEADER_RE (cp ''che la diritta via era smarrita'')"
  "\<not> re_match U CANTICA_HEADER_RE (cp ''Per correr miglior acque'')"
  "\<not> re_match U CANTICA_HEADER_RE (cp ''Per me si va'')"
  by (simp_all add: eval_regex eval_strings)

lemma demo_canto_lines:
  "re_match U CANTO_HEADER_RE (cp ''CANTO PRIMO'')"
  "re_match U CANTO_HEADER_RE (cp ''CANTO SECONDO'')"
  "re_match U CANTO_HEADER_RE (cp ''CANTO TERZO'')"
  "\<not> re_match U CANTO_HEADER_RE (cp ''LA DIVINA COMMEDIA'')"
  "\<not> re_match U CANTO_HEADER_RE (cp ''5'')"
  "\<not> re_match U CANTO_HEADER_RE (cp ''Nel mezzo del cammin di nostra vita'')"
  "\<not> re_match U CANTO_HEADER_RE (cp ''che la diritta via era smarrita'')"
  "\<not> re_match U CANTO_HEADER_RE (cp ''Per correr miglior acque'')"
  "\<not> re_match U CANTO_HEADER_RE (cp ''Per me si va'')"
  by (simp_all add: eval_regex eval_strings)

lemma demo_verse_lines:
  "is_probable_verse U (cp ''Nel mezzo del cammin di nostra vita'')"
  "is_probable_verse U (cp ''che la diritta via era smarrita'')"
  "is_probable_verse U (cp ''Per correr miglior acque'')"
  "is_probable_verse U (cp ''Per me si va'')"
  "\<not> is_probable_verse U (cp ''5'')"
  "\<not> is_probable_verse U (cp ''LA DIVINA COMMEDIA'')"
  by (simp_all add: is_probable_verse_def py_split_def strip_nonword_def eval_regex eval_strings)
lemma demo_titles:
  "map_of CANTICHE_TITLES (py_upper U (py_strip (cp ''INFERNO''))) = Some (cp ''Inferno'')"
  "map_of CANTICHE_TITLES (py_upper U (py_strip (cp ''PURGATORIO''))) = Some (cp ''Purgatorio'')"
  by (simp_all add: CANTICHE_TITLES_def eval_strings)

lemma group_terzine_Nil: "group_terzine [] = []"
  by (simp add: group_terzine_closed)

lemma make_blocks_Nil: "make_blocks [] B ov = []"
  by (simp add: make_blocks_def make_blocks_loop.simps [of "[]"])

lemma make_blocks_single:
  assumes "vs \<noteq> []" "int (length vs) \<le> B"
  shows "make_blocks vs B ov = [block_of vs]"
proof -
  from assms have B: "0 < B"
    by (cases vs) auto
  from assms have "py_slice vs 0 (nat B) = vs"
    by (simp add: py_slice_def)
  with assms B show ?thesis
    by (simp add: make_blocks_def make_blocks_loop.simps [of vs B ov 0] Let_def)
qed

lemmas eval_run = demo_pages_def step_def demo_part_lines
  demo_canto_lines demo_verse_lines demo_titles close_canto_def to_json_def add_verse_def
  verse_urn_def short_cantica_titles Let_def init_state_def sample_cfg_def canto_summary_def
  group_terzine_Nil make_blocks_Nil make_blocks_single group_terzine_closed

lemma demo_run:
  "\<exists>st. run_pipeline plain_db sample_cfg demo_pages = Inr st
     \<and> map (\<lambda>(p, d). (p, canto_summary d)) (written st) =
         [(cp ''out/inf_01.json'', cp ''Inferno'', 1, [1, 2],
             \<lparr> n_versi = 2, n_terzine = 0, n_recitation_blocks = 1 \<rparr>),
          (cp ''out/inf_02.json'', cp ''Inferno'', 2, [],
             \<lparr> n_versi = 0, n_terzine = 0, n_recitation_blocks = 0 \<rparr>),
          (cp ''out/purg_01.json'', cp ''Purgatorio'', 1, [1],
             \<lparr> n_versi = 1, n_terzine = 0, n_recitation_blocks = 1 \<rparr>),
          (cp ''out/inf_03.json'', cp ''Inferno'', 3, [1],
             \<lparr> n_versi = 1, n_terzine = 0, n_recitation_blocks = 1 \<rparr>)]
     \<and> map (\<lambda>e. (me_cantica e, me_canto e, me_file e, me_counts e)) (manifest_canti st) =
         [(Some (cp ''Inferno''), Some 1, cp ''out/inf_01.json'',
             \<lparr> n_versi = 2, n_terzine = 0, n_recitation_blocks = 1 \<rparr>),
          (Some (cp ''Inferno''), Some 2, cp ''out/inf_02.json'',
             \<lparr> n_versi = 0, n_terzine = 0, n_recitation_blocks = 0 \<rparr>),
          (Some (cp ''Purgatorio''), Some 1, cp ''out/purg_01.json'',
             \<lparr> n_versi = 1, n_terzine = 0, n_recitation_blocks = 1 \<rparr>),
          (Some (cp ''Inferno''), Some 3, cp ''out/inf_03.json'',
             \<lparr> n_versi = 1, n_terzine = 0, n_recitation_blocks = 1 \<rparr>)]"
  unfolding run_pipeline_def demo_clean
  by (simp add: eval_run) (simp add: path_join_def eval_strings)
lemma demo_run_cantos:
  "\<exists>st. run_pipeline plain_db sample_cfg demo_pages = Inr st
     \<and> map canto_summary (map snd (written st)) =
         [(cp ''Inferno'', 1, [1, 2], \<lparr> n_versi = 2, n_terzine = 0, n_recitation_blocks = 1 \<rparr>),
          (cp ''Inferno'', 2, [], \<lparr> n_versi = 0, n_terzine = 0, n_recitation_blocks = 0 \<rparr>),
          (cp ''Purgatorio'', 1, [1], \<lparr> n_versi = 1, n_terzine = 0, n_recitation_blocks = 1 \<rparr>),
          (cp ''Inferno'', 3, [1], \<lparr> n_versi = 1, n_terzine = 0, n_recitation_blocks = 1 \<rparr>)]"
proof -
  from demo_run obtain st where st: "run_pipeline plain_db sample_cfg demo_pages = Inr st
     \<and> map (\<lambda>(p, d). (p, canto_summary d)) (written st) =
         [(cp ''out/inf_01.json'', cp ''Inferno'', 1, [1, 2],
             \<lparr> n_versi = 2, n_terzine = 0, n_recitation_blocks = 1 \<rparr>),
          (cp ''out/inf_02.json'', cp ''Inferno'', 2, [],
             \<lparr> n_versi = 0, n_terzine = 0, n_recitation_blocks = 0 \<rparr>),
          (cp ''out/purg_01.json'', cp ''Purgatorio'', 1, [1],
             \<lparr> n_versi = 1, n_terzine = 0, n_recitation_blocks = 1 \<rparr>),
          (cp ''out/inf_03.json'', cp ''Inferno'', 3, [1],
             \<lparr> n_versi = 1, n_terzine = 0, n_recitation_blocks = 1 \<rparr>)]
     \<and> map (\<lambda>e. (me_cantica e, me_canto e, me_file e, me_counts e)) (manifest_canti st) =
         [(Some (cp ''Inferno''), Some 1, cp ''out/inf_01.json'',
             \<lparr> n_versi = 2, n_terzine = 0, n_recitation_blocks = 1 \<rparr>),
          (Some (cp ''Inferno''), Some 2, cp ''out/inf_02.json'',
             \<lparr> n_versi = 0, n_terzine = 0, n_recitation_blocks = 0 \<rparr>),
          (Some (cp ''Purgatorio''), Some 1, cp ''out/purg_01.json'',
             \<lparr> n_versi = 1, n_terzine = 0, n_recitation_blocks = 1 \<rparr>),
          (Some (cp ''Inferno''), Some 3, cp ''out/inf_03.json'',
             \<lparr> n_versi = 1, n_terzine = 0, n_recitation_blocks = 1 \<rparr>)]" ..
  note run = conjunct1 [OF st] and files = conjunct1 [OF conjunct2 [OF st]]
  have "map canto_summary (map snd (written st)) =
      map snd (map (\<lambda>(p, d). (p, canto_summary d)) (written st))"
    by (simp add: comp_def split_def)
  with run show ?thesis
    unfolding files by (intro exI [of _ st]) simp
qed

theorem run_numbering_witness:
  "\<exists>st. run_pipeline plain_db sample_cfg demo_pages = Inr st
     \<and> map (\<lambda>d. map v_number (cj_versi d)) (map snd (written st)) = [[1, 2], [], [1], [1]]
     \<and> list_all (\<lambda>d. contiguous (map v_number (cj_versi d))) (map snd (written st))
     \<and> cantos_written (cp ''Inferno'') st = [1, 2, 3]
     \<and> cantos_written (cp ''Purgatorio'') st = [1]
     \<and> contiguous (cantos_written (cp ''Inferno'') st)
     \<and> contiguous (cantos_written (cp ''Purgatorio'') st)"
proof -
  from demo_run_cantos obtain st where st: "run_pipeline plain_db sample_cfg demo_pages = Inr st
     \<and> map canto_summary (map snd (written st)) =
         [(cp ''Inferno'', 1, [1, 2], \<lparr> n_versi = 2, n_terzine = 0, n_recitation_blocks = 1 \<rparr>),
          (cp ''Inferno'', 2, [], \<lparr> n_versi = 0, n_terzine = 0, n_recitation_blocks = 0 \<rparr>),
          (cp ''Purgatorio'', 1, [1], \<lparr> n_versi = 1, n_terzine = 0, n_recitation_blocks = 1 \<rparr>),
          (cp ''Inferno'', 3, [1], \<lparr> n_versi = 1, n_terzine = 0, n_recitation_blocks = 1 \<rparr>)]" ..
  note run = conjunct1 [OF st] and files = conjunct2 [OF st]
  from files obtain d1 d2 d3 d4 where
    ds: "map snd (written st) = [d1, d2, d3, d4]"
    and s: "canto_summary d1 = (cp ''Inferno'', 1, [1, 2],
             \<lparr> n_versi = 2, n_terzine = 0, n_recitation_blocks = 1 \<rparr>)"
      "canto_summary d2 = (cp ''Inferno'', 2, [],
             \<lparr> n_versi = 0, n_terzine = 0, n_recitation_blocks = 0 \<rparr>)"
      "canto_summary d3 = (cp ''Purgatorio'', 1, [1],
             \<lparr> n_versi = 1, n_terzine = 0, n_recitation_blocks = 1 \<rparr>)"
      "canto_summary d4 = (cp ''Inferno'', 3, [1],
             \<lparr> n_versi = 1, n_terzine = 0, n_recitation_blocks = 1 \<rparr>)"
    by (auto simp: map_eq_Cons_conv)
  from s have fields:
    "cj_cantica d1 = cp ''Inferno''" "cj_canto d1 = 1" "map v_number (cj_versi d1) = [1, 2]"
    "cj_cantica d2 = cp ''Inferno''" "cj_canto d2 = 2" "map v_number (cj_versi d2) = []"
    "cj_cantica d3 = cp ''Purgatorio''" "cj_canto d3 = 1" "map v_number (cj_versi d3) = [1]"
    "cj_cantica d4 = cp ''Inferno''" "cj_canto d4 = 3" "map v_number (cj_versi d4) = [1]"
    by (simp_all add: canto_summary_def)
  have differ: "cp ''Inferno'' \<noteq> cp ''Purgatorio''"
    by (simp add: cp_def)
  note numbering = run_numbering [OF run]
  have verses: "map (\<lambda>d. map v_number (cj_versi d)) (map snd (written st)) = [[1, 2], [], [1], [1]]"
    by (simp add: ds fields del: map_map)
  have inf: "cantos_written (cp ''Inferno'') st = [1, 2, 3]"
    using differ by (simp add: cantos_written_def ds fields)
  have purg: "cantos_written (cp ''Purgatorio'') st = [1]"
    using differ by (simp add: cantos_written_def ds fields)
  from numbering have "list_all (\<lambda>d. contiguous (map v_number (cj_versi d))) (map snd (written st))"
    and "contiguous (cantos_written (cp ''Inferno'') st)"
    and "contiguous (cantos_written (cp ''Purgatorio'') st)"
    by blast+
  with run verses inf purg show ?thesis
    by (intro exI [of _ st] conjI)
qed

section \<open>The matcher decides the language\<close>

lemma nullable_iff: "nullable r \<longleftrightarrow> [] \<in> lang U r"
  by (induction r) (auto intro: star.star_empty)

lemma star_cons:
  "x # s \<in> star A \<longleftrightarrow> (\<exists>u v. s = u @ v \<and> x # u \<in> A \<and> v \<in> star A)"
proof
  assume "x # s \<in> star A"
  then show "\<exists>u v. s = u @ v \<and> x # u \<in> A \<and> v \<in> star A"
  proof (induction "x # s" rule: star.induct)
    case (star_step u v)
    show ?case
    proof (cases u)
      case Nil
      with star_step show ?thesis by simp
    next
      case (Cons y u')
      with star_step.hyps star_step.hyps(4) show ?thesis
        by auto
    qed
  qed
next
  assume "\<exists>u v. s = u @ v \<and> x # u \<in> A \<and> v \<in> star A"
  then obtain u v where "s = u @ v" "x # u \<in> A" "v \<in> star A"
    by blast
  then show "x # s \<in> star A"
    using star.star_step [of "x # u" A v] by simp
qed

lemma deriv_lang: "lang U (deriv U x r) = {s. x # s \<in> lang U r}"
proof (induction r)
  case (Seq r1 r2)
  have "{s. x # s \<in> lang U (Seq r1 r2)} =
      {u @ v |u v. x # u \<in> lang U r1 \<and> v \<in> lang U r2}
      \<union> (if [] \<in> lang U r1 then {s. x # s \<in> lang U r2} else {})"
    by (auto simp: Cons_eq_append_conv)
  with Seq show ?case
    by (auto simp: nullable_iff [of _ U])
next
  case (Star r)
  then show ?case
    by (auto simp: star_cons)
qed auto

lemma matches_iff: "matches U r s \<longleftrightarrow> s \<in> lang U r"
  by (induction s arbitrary: r) (simp_all add: nullable_iff [of _ U] deriv_lang)

lemma re_match_iff:
  "re_match U r s \<longleftrightarrow>
     s \<in> lang U r \<or> (s \<noteq> [] \<and> last s = 10 \<and> butlast s \<in> lang U r)"
  by (simp add: re_match_def matches_iff)

section \<open>The shape of the lines that the patterns match\<close>

lemma star_atom: "s \<in> star {[x] |x. P x} \<longleftrightarrow> (\<forall>x\<in>set s. P x)"
proof
  assume "s \<in> star {[x] |x. P x}"
  then show "\<forall>x\<in>set s. P x"
    by (induction rule: star.induct) auto
next
  show "\<forall>x\<in>set s. P x \<Longrightarrow> s \<in> star {[x] |x. P x}"
  proof (induction s)
    case Nil
    show ?case by (rule star.star_empty)
  next
    case (Cons x s)
    then have "[x] \<in> {[x] |x. P x}" "s \<in> star {[x] |x. P x}"
      by auto
    from star.star_step [OF this] show ?case by simp
  qed
qed

lemma lang_star_atom: "s \<in> lang U (Star (Atom c)) \<longleftrightarrow> (\<forall>x\<in>set s. cmatch U c x)"
  by (simp add: star_atom)

lemma lang_plus_atom:
  "s \<in> lang U (Plus (Atom c)) \<longleftrightarrow> s \<noteq> [] \<and> (\<forall>x\<in>set s. cmatch U c x)"
proof
  assume "s \<in> lang U (Plus (Atom c))"
  then obtain x v where "s = [x] @ v" "cmatch U c x" "\<forall>y\<in>set v. cmatch U c y"
    by (auto simp: Plus_def star_atom)
  then show "s \<noteq> [] \<and> (\<forall>x\<in>set s. cmatch U c x)"
    by simp
next
  assume r: "s \<noteq> [] \<and> (\<forall>x\<in>set s. cmatch U c x)"
  then obtain x v where s: "s = x # v"
    by (cases s) auto
  with r have "[x] \<in> lang U (Atom c)" "v \<in> lang U (Star (Atom c))"
    by (simp_all add: star_atom)
  then have "[x] @ v \<in> lang U (Seq (Atom c) (Star (Atom c)))"
    unfolding lang.simps by blast
  with s show "s \<in> lang U (Plus (Atom c))"
    by (simp add: Plus_def)
qed

lemma lang_seqs_Cons: "lang U (seqs (r # rs)) = {u @ v |u v. u \<in> lang U r \<and> v \<in> lang U (seqs rs)}"
  by (simp add: seqs_def)

lemma lang_seqs_Nil: "lang U (seqs []) = {[]}"
  by (simp add: seqs_def)

lemma key_of_space: "is_space x \<Longrightarrow> sre_key x = x"
  by (auto simp: is_space_def sre_key_def)

text \<open>A case-insensitive word matches strings of its length with its keys.\<close>

lemma lang_iword:
  "u \<in> lang U (iword w) \<Longrightarrow>
   length u = length w \<and> map sre_key u = map (\<lambda>c. sre_key (of_char c)) w"
proof (induction w arbitrary: u)
  case Nil
  then show ?case by (simp add: iword_def seqs_def)
next
  case (Cons c w)
  from Cons.prems obtain x v where u: "u = x # v" and x: "sre_key x = sre_key (of_char c)"
    and v: "v \<in> lang U (iword w)"
    by (auto simp: iword_def seqs_def)
  from Cons.IH [OF v] u x show ?case by simp
qed

lemma lang_word:
  "u \<in> lang U (word w) \<Longrightarrow> u = map of_char w"
proof (induction w arbitrary: u)
  case Nil
  then show ?case by (simp add: word_def seqs_def)
next
  case (Cons c w)
  from Cons.prems obtain v where u: "u = of_char c # v" and v: "v \<in> lang U (word w)"
    by (auto simp: word_def seqs_def)
  from Cons.IH [OF v] u show ?case by simp
qed

text \<open>Leading whitespace, then a first character that is none.\<close>

lemma lead_keys_intro:
  assumes s: "s = sp @ u @ v" and sp: "\<forall>x\<in>set sp. is_space x"
    and u: "u \<noteq> []" "\<not> is_space (sre_key (hd u))"
  shows "lead_keys (map sre_key u) s"
proof -
  from u obtain x u' where ux: "u = x # u'"
    by (cases u) auto
  with u have "\<not> is_space x"
    using key_of_space [of x] by auto
  with sp have "dropWhile is_space s = u @ v"
    by (simp add: s ux dropWhile_append2)
  then show ?thesis
    by (simp add: lead_keys_def)
qed

lemma lead_keys_append:
  assumes "lead_keys ks s" "ks \<noteq> []"
  shows "lead_keys ks (s @ t)"
proof -
  from assms have "length ks \<le> length (dropWhile is_space s)" "0 < length ks"
    by (simp_all add: lead_keys_def)
  then have "0 < length (dropWhile is_space s)"
    by linarith
  then have "\<not> (\<forall>x\<in>set s. is_space x)"
    by (metis dropWhile_eq_Nil_conv length_greater_0_conv)
  then obtain x where "x \<in> set s" "\<not> is_space x"
    by blast
  then have "dropWhile is_space (s @ t) = dropWhile is_space s @ t"
    by (simp add: dropWhile_append1)
  with assms show ?thesis
    by (simp add: lead_keys_def)
qed

text \<open>Two sequences of keys that lead the same line agree as far as both go.\<close>

lemma lead_keys_agree:
  assumes "lead_keys ks s" "lead_keys ks' s" "n \<le> length ks" "n \<le> length ks'"
  shows "take n ks = take n ks'"
proof -
  define d where "d = dropWhile is_space s"
  from assms have ks: "ks = map sre_key (take (length ks) d)"
    and ks': "ks' = map sre_key (take (length ks') d)"
    by (simp_all add: lead_keys_def d_def)
  have "take n ks = map sre_key (take n d)"
    by (subst ks) (simp add: take_map assms min_def)
  moreover have "take n ks' = map sre_key (take n d)"
    by (subst ks') (simp add: take_map assms min_def)
  ultimately show ?thesis by simp
qed

text \<open>
  A pattern that begins \<open>\s*\<close> and a case-insensitive word: the line goes on, after its
  leading whitespace, with the keys of the word, also when \<open>$\<close> matched before a newline.
\<close>

lemma lead_keys_lang:
  assumes "s \<in> lang U (seqs (Star ws # iword w # rs))"
    and w: "w \<noteq> []" "\<not> is_space (sre_key (of_char (hd w)))"
  shows "lead_keys (map (\<lambda>c. sre_key (of_char c)) w) s"
proof -
  from assms(1) obtain sp u v where s: "s = sp @ u @ v"
    and sp: "\<forall>x\<in>set sp. is_space x" and u: "u \<in> lang U (iword w)"
    by (auto simp: lang_seqs_Cons ws_def star_atom)
  from lang_iword [OF u] have len: "length u = length w"
    and keys: "map sre_key u = map (\<lambda>c. sre_key (of_char c)) w"
    by simp_all
  from len w have ne: "u \<noteq> []"
    by auto
  from keys ne w have "sre_key (hd u) = sre_key (of_char (hd w))"
    by (cases u; cases w) auto
  with w have "\<not> is_space (sre_key (hd u))"
    by simp
  from lead_keys_intro [OF s sp ne this] keys show ?thesis
    by simp
qed

lemma lead_keys_re_match:
  assumes "re_match U (seqs (Star ws # iword w # rs)) s"
    and w: "w \<noteq> []" "\<not> is_space (sre_key (of_char (hd w)))"
  shows "lead_keys (map (\<lambda>c. sre_key (of_char c)) w) s"
proof -
  from assms(1) consider "s \<in> lang U (seqs (Star ws # iword w # rs))"
    | "s \<noteq> []" "butlast s \<in> lang U (seqs (Star ws # iword w # rs))"
    by (auto simp: re_match_iff)
  then show ?thesis
  proof cases
    case 1
    then show ?thesis by (rule lead_keys_lang [OF _ w])
  next
    case 2
    from lead_keys_lang [OF 2(2) w] w
    have "lead_keys (map (\<lambda>c. sre_key (of_char c)) w) (butlast s @ [last s])"
      by (intro lead_keys_append) auto
    with 2(1) show ?thesis by simp
  qed
qed

section \<open>Noise patterns and heading patterns match different lines\<close>

lemma lead_keys_agree_min:
  assumes "lead_keys ks s" "lead_keys ks' s"
  shows "take (min (length ks) (length ks')) ks = take (min (length ks) (length ks')) ks'"
  using lead_keys_agree [OF assms, of "min (length ks) (length ks')"] by simp

lemma lead_keys_member:
  assumes "lead_keys ks s" "i < length ks"
  shows "\<exists>x\<in>set s. sre_key x = ks ! i"
proof -
  define d where "d = dropWhile is_space s"
  from assms have len: "i < length d" and ks: "ks = map sre_key (take (length ks) d)"
    by (simp_all add: lead_keys_def d_def)
  have "ks ! i = sre_key (d ! i)"
    by (subst ks) (simp add: assms len)
  moreover from len have "d ! i \<in> set s"
    unfolding d_def by (metis nth_mem set_dropWhileD)
  ultimately show ?thesis by metis
qed

lemma lead_keys_take:
  assumes "lead_keys ks s"
  shows "lead_keys (take n ks) s"
proof -
  define d where "d = dropWhile is_space s"
  from assms have len: "length ks \<le> length d" and ks: "map sre_key (take (length ks) d) = ks"
    by (simp_all add: lead_keys_def d_def)
  have "take n (map sre_key (take (length ks) d)) = map sre_key (take (min n (length ks)) d)"
    by (simp add: take_map min.commute)
  with ks have "map sre_key (take (min n (length ks)) d) = take n ks"
    by simp
  moreover have "min n (length ks) = min (length ks) n"
    by simp
  ultimately show ?thesis
    using len by (simp add: lead_keys_def d_def)
qed

text \<open>A part heading goes on, after its leading whitespace, with one of the three names.\<close>

lemma cantica_shape:
  assumes "re_match U CANTICA_HEADER_RE s"
  shows "lead_keys [105, 110, 102] s \<or> lead_keys [112, 117, 114] s \<or> lead_keys [112, 97, 114] s"
proof -
  from assms have "re_match U (seqs [Star ws, iword ''INFERNO'', Star ws]) s
      \<or> re_match U (seqs [Star ws, iword ''PURGATORIO'', Star ws]) s
      \<or> re_match U (seqs [Star ws, iword ''PARADISO'', Star ws]) s"
    by (auto simp: re_match_iff CANTICA_HEADER_RE_def cantica_names_def alts_def lang_seqs_Cons)
  then consider
      (inf) "lead_keys (map (\<lambda>c. sre_key (of_char c)) ''INFERNO'') s"
    | (pur) "lead_keys (map (\<lambda>c. sre_key (of_char c)) ''PURGATORIO'') s"
    | (par) "lead_keys (map (\<lambda>c. sre_key (of_char c)) ''PARADISO'') s"
    by (auto dest!: lead_keys_re_match simp: sre_key_def is_space_def)
  then show ?thesis
  proof cases
    case inf
    from lead_keys_take [OF inf, of 3] show ?thesis
      by (simp add: sre_key_def)
  next
    case pur
    from lead_keys_take [OF pur, of 3] show ?thesis
      by (simp add: sre_key_def)
  next
    case par
    from lead_keys_take [OF par, of 3] show ?thesis
      by (simp add: sre_key_def)
  qed
qed
lemma lead_keys_nth:
  assumes "lead_keys ks s" "i < length ks"
  shows "i < length (dropWhile is_space s) \<and> sre_key (dropWhile is_space s ! i) = ks ! i"
proof -
  define d where "d = dropWhile is_space s"
  from assms have len: "i < length d" and ks: "ks = map sre_key (take (length ks) d)"
    by (simp_all add: lead_keys_def d_def)
  have "ks ! i = sre_key (d ! i)"
    by (subst ks) (simp add: assms len)
  with len show ?thesis
    by (simp add: d_def)
qed

text \<open>A canto heading goes on, after its leading whitespace, with the letter C.\<close>

lemma canto_shape:
  assumes "re_match U CANTO_HEADER_RE s"
  shows "lead_keys [99] s"
proof -
  have shape: "lead_keys [99] t" if "t \<in> lang U CANTO_HEADER_RE" for t
  proof -
    from that obtain sp u v where t: "t = sp @ u @ v"
      and sp: "\<forall>x\<in>set sp. is_space x" and u: "u \<in> lang U (word ''CANTO'')"
      by (auto simp: CANTO_HEADER_RE_def lang_seqs_Cons ws_def star_atom)
    from lang_word [OF u] have u': "u = [67, 65, 78, 84, 79]"
      by simp
    then have "u \<noteq> []" "\<not> is_space (sre_key (hd u))"
      by (simp_all add: sre_key_def is_space_def)
    from lead_keys_intro [OF t sp this] have "lead_keys (map sre_key u) t" .
    from lead_keys_take [OF this, of 1] show ?thesis
      by (simp add: u' sre_key_def)
  qed
  from assms consider "s \<in> lang U CANTO_HEADER_RE"
    | "s \<noteq> []" "butlast s \<in> lang U CANTO_HEADER_RE"
    by (auto simp: re_match_iff)
  then show ?thesis
  proof cases
    case 1
    then show ?thesis by (rule shape)
  next
    case 2
    from shape [OF 2(2)] have "lead_keys [99] (butlast s @ [last s])"
      by (intro lead_keys_append) auto
    with 2(1) show ?thesis by simp
  qed
qed

text \<open>A line that is a page number holds whitespace and decimal digits only.\<close>

lemma footer_lang:
  assumes "t \<in> lang U (seqs [Star ws, Plus (Atom Digit), Star ws])"
  shows "\<forall>x\<in>set t. is_space x \<or> is_decimal U x"
proof -
  from assms obtain sp r1 where t: "t = sp @ r1" and sp: "sp \<in> lang U (Star ws)"
    and r1: "r1 \<in> lang U (seqs [Plus (Atom Digit), Star ws])"
    unfolding lang_seqs_Cons [of U "Star ws"] by blast
  from r1 obtain ds r2 where r1': "r1 = ds @ r2" and ds: "ds \<in> lang U (Plus (Atom Digit))"
    and r2: "r2 \<in> lang U (seqs [Star ws])"
    unfolding lang_seqs_Cons [of U "Plus (Atom Digit)"] by blast
  from r2 obtain sp' r3 where r2': "r2 = sp' @ r3" and sp': "sp' \<in> lang U (Star ws)"
    and r3: "r3 \<in> lang U (seqs [])"
    unfolding lang_seqs_Cons [of U "Star ws"] by blast
  from r3 have r3': "r3 = []"
    by (simp add: lang_seqs_Nil)
  from sp have a: "\<forall>x\<in>set sp. is_space x"
    unfolding ws_def lang_star_atom by simp
  from sp' have b: "\<forall>x\<in>set sp'. is_space x"
    unfolding ws_def lang_star_atom by simp
  from ds have c: "\<forall>x\<in>set ds. is_decimal U x"
    unfolding lang_plus_atom by simp
  have "set t = set sp \<union> set ds \<union> set sp'"
    by (simp add: t r1' r2' r3' Un_assoc)
  with a b c show ?thesis
    by blast
qed

lemma footer_shape:
  assumes "re_match U (seqs [Star ws, Plus (Atom Digit), Star ws]) s"
  shows "\<forall>x\<in>set s. is_space x \<or> is_decimal U x"
proof -
  from assms consider "s \<in> lang U (seqs [Star ws, Plus (Atom Digit), Star ws])"
    | "s \<noteq> []" "last s = 10" "butlast s \<in> lang U (seqs [Star ws, Plus (Atom Digit), Star ws])"
    unfolding re_match_iff by blast
  then show ?thesis
  proof cases
    case 1
    then show ?thesis by (rule footer_lang)
  next
    case 2
    from 2(1) obtain ys y where s: "s = ys @ [y]"
      by (cases s rule: rev_cases) auto
    with 2(2) have y: "is_space y"
      by (simp add: is_space_def)
    from 2(3) s have "ys \<in> lang U (seqs [Star ws, Plus (Atom Digit), Star ws])"
      by simp
    from footer_lang [OF this] y show ?thesis
      by (simp add: s)
  qed
qed
lemma lead_word:
  assumes "re_match U (seqs (Star ws # iword w # rs)) s"
    and "w \<noteq> []" "\<not> is_space (sre_key (of_char (hd w)))"
  shows "lead_keys (take n (map (\<lambda>c. sre_key (of_char c)) w)) s"
  by (rule lead_keys_take [OF lead_keys_re_match [OF assms]])

text \<open>
  A line that matches a noise pattern is a page number, or goes on after its leading
  whitespace with the first letters of one of the thirteen titles and captions.
\<close>

lemma noise_shape:
  assumes "looks_like_noise U s"
  shows "(\<forall>x\<in>set s. is_space x \<or> is_decimal U x)
    \<or> lead_keys [108] s \<or> lead_keys [100] s \<or> lead_keys [112, 114] s \<or> lead_keys [109] s
    \<or> lead_keys [105, 110, 100] s \<or> lead_keys [114] s \<or> lead_keys [112, 97, 103] s"
proof -
  from assms consider
      (h1) "re_match U (HEADER_PATTERNS ! 0) s" | (h2) "re_match U (HEADER_PATTERNS ! 1) s"
    | (h3) "re_match U (HEADER_PATTERNS ! 2) s" | (h4) "re_match U (HEADER_PATTERNS ! 3) s"
    | (h5) "re_match U (HEADER_PATTERNS ! 4) s" | (h6) "re_match U (HEADER_PATTERNS ! 5) s"
    | (h7) "re_match U (HEADER_PATTERNS ! 6) s" | (f1) "re_match U (FOOTER_PATTERNS ! 0) s"
    | (i1) "re_match U (ILLUSTRATION_PATTERNS ! 0) s"
    | (i2) "re_match U (ILLUSTRATION_PATTERNS ! 1) s"
    | (i3) "re_match U (ILLUSTRATION_PATTERNS ! 2) s"
    | (i4) "re_match U (ILLUSTRATION_PATTERNS ! 3) s"
    | (i5) "re_match U (ILLUSTRATION_PATTERNS ! 4) s"
    | (i6) "re_match U (ILLUSTRATION_PATTERNS ! 5) s"
    unfolding looks_like_noise_def HEADER_PATTERNS_def FOOTER_PATTERNS_def
      ILLUSTRATION_PATTERNS_def
    by auto
  then show ?thesis
  proof cases
    case h1
    have "lead_keys (take 1 (map (\<lambda>c. sre_key (of_char c)) ''LA'')) s"
      by (rule lead_word) (use h1 in \<open>simp_all add: HEADER_PATTERNS_def sre_key_def is_space_def\<close>)
    then show ?thesis by (simp add: sre_key_def)
  next
    case h2
    have "lead_keys (take 1 (map (\<lambda>c. sre_key (of_char c)) ''DANTE'')) s"
      by (rule lead_word) (use h2 in \<open>simp_all add: HEADER_PATTERNS_def sre_key_def is_space_def\<close>)
    then show ?thesis by (simp add: sre_key_def)
  next
    case h3
    have "lead_keys (take (Suc (Suc 0)) (map (\<lambda>c. sre_key (of_char c)) ''Propriet'')) s"
      by (rule lead_word) (use h3 in \<open>simp_all add: HEADER_PATTERNS_def sre_key_def is_space_def\<close>)
    then show ?thesis by (simp add: sre_key_def)
  next
    case h4
    have "lead_keys (take 1 (map (\<lambda>c. sre_key (of_char c)) ''Milano'')) s"
      by (rule lead_word) (use h4 in \<open>simp_all add: HEADER_PATTERNS_def sre_key_def is_space_def\<close>)
    then show ?thesis by (simp add: sre_key_def)
  next
    case h5
    have "lead_keys (take (Suc (Suc 0)) (map (\<lambda>c. sre_key (of_char c)) ''PREFAZIONE'')) s"
      by (rule lead_word) (use h5 in \<open>simp_all add: HEADER_PATTERNS_def sre_key_def is_space_def\<close>)
    then show ?thesis by (simp add: sre_key_def)
  next
    case h6
    have "lead_keys (take (Suc (Suc (Suc 0))) (map (\<lambda>c. sre_key (of_char c)) ''INDICE'')) s"
      by (rule lead_word) (use h6 in \<open>simp_all add: HEADER_PATTERNS_def sre_key_def is_space_def\<close>)
    then show ?thesis by (simp add: sre_key_def)
  next
    case h7
    have "lead_keys (take 1 (map (\<lambda>c. sre_key (of_char c)) ''Liber'')) s"
      by (rule lead_word) (use h7 in \<open>simp_all add: HEADER_PATTERNS_def sre_key_def is_space_def\<close>)
    then show ?thesis by (simp add: sre_key_def)
  next
    case f1
    then have "re_match U (seqs [Star ws, Plus (Atom Digit), Star ws]) s"
      by (simp add: FOOTER_PATTERNS_def)
    from footer_shape [OF this] show ?thesis by simp
  next
    case i1
    have "lead_keys (take 1 (map (\<lambda>c. sre_key (of_char c)) ''Raffaello'')) s"
      by (rule lead_word)
        (use i1 in \<open>simp_all add: ILLUSTRATION_PATTERNS_def sre_key_def is_space_def\<close>)
    then show ?thesis by (simp add: sre_key_def)
  next
    case i2
    have "lead_keys (take 1 (map (\<lambda>c. sre_key (of_char c)) ''Michelangelo'')) s"
      by (rule lead_word)
        (use i2 in \<open>simp_all add: ILLUSTRATION_PATTERNS_def sre_key_def is_space_def\<close>)
    then show ?thesis by (simp add: sre_key_def)
  next
    case i3
    have "lead_keys (take 1 (map (\<lambda>c. sre_key (of_char c)) ''Luca'')) s"
      by (rule lead_word)
        (use i3 in \<open>simp_all add: ILLUSTRATION_PATTERNS_def sre_key_def is_space_def\<close>)
    then show ?thesis by (simp add: sre_key_def)
  next
    case i4
    have "lead_keys (take 1 (map (\<lambda>c. sre_key (of_char c)) ''Disegno'')) s"
      by (rule lead_word)
        (use i4 in \<open>simp_all add: ILLUSTRATION_PATTERNS_def sre_key_def is_space_def\<close>)
    then show ?thesis by (simp add: sre_key_def)
  next
    case i5
    have "lead_keys (take 1 (map (\<lambda>c. sre_key (of_char c)) ''Miniatura'')) s"
      by (rule lead_word)
        (use i5 in \<open>simp_all add: ILLUSTRATION_PATTERNS_def sre_key_def is_space_def\<close>)
    then show ?thesis by (simp add: sre_key_def)
  next
    case i6
    have "lead_keys (take (Suc (Suc (Suc 0))) (map (\<lambda>c. sre_key (of_char c)) ''Pagina'')) s"
      by (rule lead_word)
        (use i6 in \<open>simp_all add: ILLUSTRATION_PATTERNS_def sre_key_def is_space_def\<close>)
    then show ?thesis by (simp add: sre_key_def)
  qed
qed

lemma key_plain:
  "sre_key x = 110 \<or> sre_key x = 112 \<or> sre_key x = 99 \<Longrightarrow> \<not> is_space x \<and> \<not> is_decimal U x"
  by (auto simp: sre_key_def is_space_def is_decimal_def split: if_splits)

text \<open>
  No line matches a noise pattern and a heading pattern: the two kinds of lines differ in
  one of the first three characters after the leading whitespace, and a page number holds
  no letter.
\<close>

lemma noise_not_heading:
  assumes "looks_like_noise U s"
  shows "\<not> re_match U CANTICA_HEADER_RE s \<and> \<not> re_match U CANTO_HEADER_RE s"
proof -
  define d where "d = dropWhile is_space s"
  define k where "k = (\<lambda>i. sre_key (d ! i))"
  have nth: "k i = ks ! i \<and> d ! i \<in> set s" if "lead_keys ks s" "i < length ks" for ks i
  proof -
    from lead_keys_nth [OF that] have len: "i < length d" and key: "k i = ks ! i"
      by (simp_all add: d_def k_def)
    from len have "d ! i \<in> set d"
      by simp
    then have "d ! i \<in> set s"
      unfolding d_def by (rule set_dropWhileD)
    with key show ?thesis by simp
  qed
  have N: "(\<forall>x\<in>set s. is_space x \<or> is_decimal U x)
    \<or> k 0 = 108 \<or> k 0 = 100 \<or> (k 0 = 112 \<and> k 1 = 114) \<or> k 0 = 109
    \<or> (k 0 = 105 \<and> k 1 = 110 \<and> k 2 = 100) \<or> k 0 = 114
    \<or> (k 0 = 112 \<and> k 1 = 97 \<and> k 2 = 103)"
    using noise_shape [OF assms]
  proof (elim disjE)
    assume "\<forall>x\<in>set s. is_space x \<or> is_decimal U x"
    then show ?thesis by simp
  next
    assume a: "lead_keys [108] s"
    from nth [OF a, of 0] show ?thesis by simp
  next
    assume a: "lead_keys [100] s"
    from nth [OF a, of 0] show ?thesis by simp
  next
    assume a: "lead_keys [112, 114] s"
    from nth [OF a, of 0] nth [OF a, of 1] show ?thesis by simp
  next
    assume a: "lead_keys [109] s"
    from nth [OF a, of 0] show ?thesis by simp
  next
    assume a: "lead_keys [105, 110, 100] s"
    from nth [OF a, of 0] nth [OF a, of 1] nth [OF a, of 2] show ?thesis by simp
  next
    assume a: "lead_keys [114] s"
    from nth [OF a, of 0] show ?thesis by simp
  next
    assume a: "lead_keys [112, 97, 103] s"
    from nth [OF a, of 0] nth [OF a, of 1] nth [OF a, of 2] show ?thesis by simp
  qed
  have no: False
    if h: "lead_keys [105, 110, 102] s \<or> lead_keys [112, 117, 114] s
      \<or> lead_keys [112, 97, 114] s \<or> lead_keys [99] s"
  proof -
    have H: "(k 0 = 105 \<and> k 1 = 110 \<and> k 2 = 102 \<and> d ! 1 \<in> set s)
      \<or> (k 0 = 112 \<and> k 1 = 117 \<and> d ! 0 \<in> set s)
      \<or> (k 0 = 112 \<and> k 1 = 97 \<and> k 2 = 114 \<and> d ! 0 \<in> set s)
      \<or> (k 0 = 99 \<and> d ! 0 \<in> set s)"
      using h
    proof (elim disjE)
      assume a: "lead_keys [105, 110, 102] s"
      from nth [OF a, of 0] nth [OF a, of 1] nth [OF a, of 2] show ?thesis by simp
    next
      assume a: "lead_keys [112, 117, 114] s"
      from nth [OF a, of 0] nth [OF a, of 1] show ?thesis by simp
    next
      assume a: "lead_keys [112, 97, 114] s"
      from nth [OF a, of 0] nth [OF a, of 1] nth [OF a, of 2] show ?thesis by simp
    next
      assume a: "lead_keys [99] s"
      from nth [OF a, of 0] show ?thesis by simp
    qed
    show False
    proof (cases "\<forall>x\<in>set s. is_space x \<or> is_decimal U x")
      case True
      from H obtain x where x: "x \<in> set s"
        and "sre_key x = 110 \<or> sre_key x = 112 \<or> sre_key x = 99"
        unfolding k_def by auto
      from key_plain [OF this(2), of U] True x show False
        by blast
    next
      case False
      with N H show False
        by auto
    qed
  qed
  with cantica_shape [of U s] canto_shape [of U s] show ?thesis
    by auto
qed



section \<open>A canto heading outside a part, and a canto without verses\<close>

lemma headings_disjoint:
  assumes "re_match U CANTO_HEADER_RE s"
  shows "\<not> re_match U CANTICA_HEADER_RE s"
proof
  assume "re_match U CANTICA_HEADER_RE s"
  from cantica_shape [OF this] canto_shape [OF assms]
  show False
    by (auto dest: lead_keys_agree [where n = 1])
qed

lemma to_json_empty:
  assumes "cb_verses b = []"
  shows "to_json b pdf pages bs bo =
    \<lparr> cj_cantica = cb_cantica b, cj_canto = cb_canto_num b, cj_pdf = pdf, cj_pages = pages,
      cj_counts = \<lparr> n_versi = 0, n_terzine = 0, n_recitation_blocks = 0 \<rparr>,
      cj_versi = [], cj_terzine = [], cj_recitation_blocks = [] \<rparr>"
  using assms by (simp add: to_json_def group_terzine_Nil make_blocks_Nil)

text \<open>
  Claim C8. A canto heading that comes while no part is current leaves every variable of
  the segmenter as it was. In every state that the loop of \<open>run_pipeline\<close> reaches,
  closing a canto whose buffer holds no verse does not raise: it writes the canto's file,
  a record with the part, the canto number, the pages, no verses, no stanzas, no blocks and
  the three counts zero, and appends the manifest entry with the same counts.
\<close>

theorem anomalies_absorbed:
  "(current_cantica st0 = None \<and> re_match U CANTO_HEADER_RE line \<longrightarrow>
      step U cfg page_idx st0 line = Inr st0)
   \<and> (run_pages U cfg 0 init_state pages = Inr st \<and> canto_buf st = Some b \<and> cb_verses b = [] \<longrightarrow>
        (\<exists>sc. short_cantica U (cb_cantica b) = Inr sc \<and>
           close_canto U cfg e st =
             Inr (st\<lparr> written := written st @
                       [(path_join (cfg_outdir cfg)
                           (sc @ cp ''_'' @ fmt_0d 2 (cb_canto_num b) @ cp ''.json''),
                         \<lparr> cj_cantica = cb_cantica b, cj_canto = cb_canto_num b,
                           cj_pdf = cfg_pdf cfg,
                           cj_pages =
                             ((case canto_start_page st of None \<Rightarrow> 0 | Some p \<Rightarrow> p) + 1, e + 1),
                           cj_counts = \<lparr> n_versi = 0, n_terzine = 0, n_recitation_blocks = 0 \<rparr>,
                           cj_versi = [], cj_terzine = [], cj_recitation_blocks = [] \<rparr>)],
                     manifest_canti := manifest_canti st @
                       [\<lparr> me_cantica = Some (cb_cantica b),
                          me_canto = Some (cb_canto_num b),
                          me_file = path_join (cfg_outdir cfg)
                            (sc @ cp ''_'' @ fmt_0d 2 (cb_canto_num b) @ cp ''.json''),
                          me_counts = \<lparr> n_versi = 0, n_terzine = 0, n_recitation_blocks = 0 \<rparr> \<rparr>],
                     canto_buf := None,
                     current_canto_num := None,
                     canto_start_page := None \<rparr>)))"
proof (intro conjI impI)
  assume a: "current_cantica st0 = None \<and> re_match U CANTO_HEADER_RE line"
  then have "\<not> re_match U CANTICA_HEADER_RE line"
    by (simp add: headings_disjoint)
  with a show "step U cfg page_idx st0 line = Inr st0"
    by (simp add: step_def)
next
  assume b: "run_pages U cfg 0 init_state pages = Inr st \<and> canto_buf st = Some b
    \<and> cb_verses b = []"
  then have "seg_inv U st"
    using run_pages_inv [OF seg_inv_init] by blast
  from close_canto_Some [OF this, of b cfg e] b to_json_empty [of b]
  show "\<exists>sc. short_cantica U (cb_cantica b) = Inr sc \<and>
           close_canto U cfg e st =
             Inr (st\<lparr> written := written st @
                       [(path_join (cfg_outdir cfg)
                           (sc @ cp ''_'' @ fmt_0d 2 (cb_canto_num b) @ cp ''.json''),
                         \<lparr> cj_cantica = cb_cantica b, cj_canto = cb_canto_num b,
                           cj_pdf = cfg_pdf cfg,
                           cj_pages =
                             ((case canto_start_page st of None \<Rightarrow> 0 | Some p \<Rightarrow> p) + 1, e + 1),
                           cj_counts = \<lparr> n_versi = 0, n_terzine = 0, n_recitation_blocks = 0 \<rparr>,
                           cj_versi = [], cj_terzine = [], cj_recitation_blocks = [] \<rparr>)],
                     manifest_canti := manifest_canti st @
                       [\<lparr> me_cantica = Some (cb_cantica b),
                          me_canto = Some (cb_canto_num b),
                          me_file = path_join (cfg_outdir cfg)
                            (sc @ cp ''_'' @ fmt_0d 2 (cb_canto_num b) @ cp ''.json''),
                          me_counts = \<lparr> n_versi = 0, n_terzine = 0, n_recitation_blocks = 0 \<rparr> \<rparr>],
                     canto_buf := None,
                     current_canto_num := None,
                     canto_start_page := None \<rparr>)"
    by simp
qed

lemma open_state_run:
  "run_pages plain_db sample_cfg 0 init_state [[cp ''INFERNO'', cp ''CANTO PRIMO'']] =
     Inr open_state"
  by (simp add: step_def demo_part_lines demo_canto_lines demo_titles close_canto_def
        init_state_def open_state_def)

theorem anomalies_absorbed_witness:
  "step plain_db sample_cfg 0 init_state (cp ''CANTO PRIMO'') = Inr init_state
   \<and> run_pages plain_db sample_cfg 0 init_state [[cp ''INFERNO'', cp ''CANTO PRIMO'']] =
       Inr open_state
   \<and> (\<exists>st'. close_canto plain_db sample_cfg 0 open_state = Inr st'
         \<and> map fst (written st') = [cp ''out/inf_01.json'']
         \<and> map (\<lambda>f. cj_counts (snd f)) (written st') =
             [\<lparr> n_versi = 0, n_terzine = 0, n_recitation_blocks = 0 \<rparr>]
         \<and> map (\<lambda>f. cj_versi (snd f)) (written st') = [[]]
         \<and> map me_counts (manifest_canti st') =
             [\<lparr> n_versi = 0, n_terzine = 0, n_recitation_blocks = 0 \<rparr>])"
proof -
  define b where "b = \<lparr> cb_cantica = cp ''Inferno'', cb_canto_num = 1, cb_verses = [] \<rparr>"
  note inst = anomalies_absorbed [of init_state plain_db "cp ''CANTO PRIMO''" sample_cfg 0
      "[[cp ''INFERNO'', cp ''CANTO PRIMO'']]" open_state b 0]
  have none: "current_cantica init_state = None"
    by (simp add: init_state_def)
  have buf: "canto_buf open_state = Some b" "cb_verses b = []"
    by (simp_all add: open_state_def b_def)
  from inst none demo_canto_lines(1) [of plain_db]
  have first: "step plain_db sample_cfg 0 init_state (cp ''CANTO PRIMO'') = Inr init_state"
    by simp
  from inst open_state_run buf obtain sc where sc: "short_cantica plain_db (cb_cantica b) = Inr sc"
    and close: "close_canto plain_db sample_cfg 0 open_state =
      Inr (open_state\<lparr> written := written open_state @
                       [(path_join (cfg_outdir sample_cfg)
                           (sc @ cp ''_'' @ fmt_0d 2 (cb_canto_num b) @ cp ''.json''),
                         \<lparr> cj_cantica = cb_cantica b, cj_canto = cb_canto_num b,
                           cj_pdf = cfg_pdf sample_cfg,
                           cj_pages =
                             ((case canto_start_page open_state of None \<Rightarrow> 0 | Some p \<Rightarrow> p) + 1,
                              0 + 1),
                           cj_counts = \<lparr> n_versi = 0, n_terzine = 0, n_recitation_blocks = 0 \<rparr>,
                           cj_versi = [], cj_terzine = [], cj_recitation_blocks = [] \<rparr>)],
                     manifest_canti := manifest_canti open_state @
                       [\<lparr> me_cantica = Some (cb_cantica b),
                          me_canto = Some (cb_canto_num b),
                          me_file = path_join (cfg_outdir sample_cfg)
                            (sc @ cp ''_'' @ fmt_0d 2 (cb_canto_num b) @ cp ''.json''),
                          me_counts = \<lparr> n_versi = 0, n_terzine = 0, n_recitation_blocks = 0 \<rparr> \<rparr>],
                     canto_buf := None,
                     current_canto_num := None,
                     canto_start_page := None \<rparr>)"
    by auto
  from sc have sc': "sc = cp ''inf''"
    by (simp add: b_def short_cantica_titles)
  have path: "path_join (cfg_outdir sample_cfg)
      (cp ''inf'' @ cp ''_'' @ fmt_0d 2 (cb_canto_num b) @ cp ''.json'') = cp ''out/inf_01.json''"
    by (simp add: path_join_def sample_cfg_def b_def eval_strings)
  from close have "\<exists>st'. close_canto plain_db sample_cfg 0 open_state = Inr st'
         \<and> map fst (written st') = [cp ''out/inf_01.json'']
         \<and> map (\<lambda>f. cj_counts (snd f)) (written st') =
             [\<lparr> n_versi = 0, n_terzine = 0, n_recitation_blocks = 0 \<rparr>]
         \<and> map (\<lambda>f. cj_versi (snd f)) (written st') = [[]]
         \<and> map me_counts (manifest_canti st') =
             [\<lparr> n_versi = 0, n_terzine = 0, n_recitation_blocks = 0 \<rparr>]"
    unfolding sc' path by (simp add: open_state_def init_state_def)
  with first open_state_run show ?thesis
    by (intro conjI)
qed

section \<open>The test for a verse\<close>

text \<open>The pattern \<open>^[A-Z\s\.\-]+$\<close> matches the non-empty lines over its four kinds of characters.\<close>

lemma caps_match:
  "re_match U CAPS_RE s \<longleftrightarrow>
     s \<noteq> [] \<and> list_all (\<lambda>c. (65 \<le> c \<and> c \<le> 90) \<or> is_space c \<or> c = 46 \<or> c = 45) s"
proof -
  let ?c = "OneOf [Range 65 90, Space, Lit 46, Lit 45]"
  have c: "cmatch U ?c x \<longleftrightarrow> (65 \<le> x \<and> x \<le> 90) \<or> is_space x \<or> x = 46 \<or> x = 45" for x
    by simp
  have l: "t \<in> lang U CAPS_RE \<longleftrightarrow>
      t \<noteq> [] \<and> list_all (\<lambda>c. (65 \<le> c \<and> c \<le> 90) \<or> is_space c \<or> c = 46 \<or> c = 45) t" for t
    unfolding CAPS_RE_def lang_plus_atom c list_all_iff ..
  show ?thesis
  proof
    assume "re_match U CAPS_RE s"
    then consider "s \<in> lang U CAPS_RE"
      | "s \<noteq> []" "last s = 10" "butlast s \<in> lang U CAPS_RE"
      unfolding re_match_iff by blast
    then show "s \<noteq> [] \<and> list_all (\<lambda>c. (65 \<le> c \<and> c \<le> 90) \<or> is_space c \<or> c = 46 \<or> c = 45) s"
    proof cases
      case 1
      then show ?thesis by (simp add: l)
    next
      case 2
      from 2(1) obtain ys y where s: "s = ys @ [y]"
        by (cases s rule: rev_cases) auto
      with 2(2) have "is_space y"
        by (simp add: is_space_def)
      moreover from 2(3) s
      have "list_all (\<lambda>c. (65 \<le> c \<and> c \<le> 90) \<or> is_space c \<or> c = 46 \<or> c = 45) ys"
        by (simp add: l)
      ultimately show ?thesis
        by (simp add: s)
    qed
  next
    assume "s \<noteq> [] \<and> list_all (\<lambda>c. (65 \<le> c \<and> c \<le> 90) \<or> is_space c \<or> c = 46 \<or> c = 45) s"
    then have "s \<in> lang U CAPS_RE"
      by (simp add: l)
    then show "re_match U CAPS_RE s"
      by (simp add: re_match_iff)
  qed
qed

lemma bare_number_is_noise: "looks_like_noise U (cp ''47'')"
  by (simp add: eval_regex eval_strings)

text \<open>
  The claim C9 as it is worded does not describe \<open>is_probable_verse\<close>. The line
  \<open>CIAO, MONDO!\<close> has two words and holds capital letters, a space and punctuation only, so
  by the wording it is no verse; the pattern of the source allows the full stop and the
  hyphen only, so the source takes the line for a verse. The line \<open>__\<close> holds nothing
  but punctuation, so by the wording it is no verse; the source counts the word characters of
  \<open>\w\<close>, of which the underscore is one, and takes the line for a verse.
\<close>

theorem verse_wording_differs:
  "is_probable_verse plain_db (clean_line (cp ''CIAO, MONDO!''))
   \<and> \<not> claimed_verse plain_db (clean_line (cp ''CIAO, MONDO!''))
   \<and> is_probable_verse plain_db (clean_line (cp ''__''))
   \<and> \<not> claimed_verse plain_db (clean_line (cp ''__''))"
proof -
  have c1: "clean_line (cp ''CIAO, MONDO!'') = cp ''CIAO, MONDO!''"
    and c2: "clean_line (cp ''__'') = cp ''__''"
    by (simp_all add: clean_line_def eval_strings)
  have "is_probable_verse plain_db (cp ''CIAO, MONDO!'')"
    by (simp add: is_probable_verse_def py_split_def strip_nonword_def eval_regex eval_strings)
  moreover have "\<not> claimed_verse plain_db (cp ''CIAO, MONDO!'')"
    by (simp add: claimed_verse_def ascii_punct_def py_split_def eval_regex eval_strings)
  moreover have "is_probable_verse plain_db (cp ''__'')"
    by (simp add: is_probable_verse_def py_split_def strip_nonword_def eval_regex eval_strings)
  moreover have "\<not> claimed_verse plain_db (cp ''__'')"
    by (simp add: claimed_verse_def ascii_punct_def py_split_def eval_regex eval_strings)
  ultimately show ?thesis
    unfolding c1 c2 by (intro conjI)
qed

text \<open>
  Claim C9, amended. A line is taken for a verse if and only if it is not empty, matches
  no noise pattern, is no part heading and no canto heading, holds at least two word
  characters (letters, digits and the underscore, the characters of \<open>\w\<close>), and is not a
  line of at most four words that holds only the capital letters A to Z, whitespace, full
  stops and hyphens. The line \<open>47\<close> matches a noise pattern, is no verse, and the round of
  the loop that reads it leaves the variables of the segmenter as they were.
\<close>

theorem verse_test:
  "(is_probable_verse U line \<longleftrightarrow>
      line \<noteq> [] \<and> \<not> looks_like_noise U line
      \<and> \<not> re_match U CANTICA_HEADER_RE line \<and> \<not> re_match U CANTO_HEADER_RE line
      \<and> 2 \<le> length (filter (is_word U) line)
      \<and> \<not> (length (py_split line) \<le> 4
            \<and> list_all (\<lambda>c. (65 \<le> c \<and> c \<le> 90) \<or> is_space c \<or> c = 46 \<or> c = 45) line))
   \<and> looks_like_noise U (cp ''47'')
   \<and> \<not> is_probable_verse U (cp ''47'')
   \<and> step U cfg page_idx st (cp ''47'') = Inr st"
proof -
  have iff: "is_probable_verse U line \<longleftrightarrow>
      line \<noteq> [] \<and> \<not> looks_like_noise U line
      \<and> \<not> re_match U CANTICA_HEADER_RE line \<and> \<not> re_match U CANTO_HEADER_RE line
      \<and> 2 \<le> length (filter (is_word U) line)
      \<and> \<not> (length (py_split line) \<le> 4
            \<and> list_all (\<lambda>c. (65 \<le> c \<and> c \<le> 90) \<or> is_space c \<or> c = 46 \<or> c = 45) line)"
    unfolding is_probable_verse_def caps_match strip_nonword_def by auto
  note noise = bare_number_is_noise [of U]
  from noise have no_verse: "\<not> is_probable_verse U (cp ''47'')"
    by (simp add: is_probable_verse_def)
  from noise_not_heading [OF noise] no_verse
  have "step U cfg page_idx st (cp ''47'') = Inr st"
    by (simp add: step_def split: option.splits)
  with iff noise no_verse show ?thesis
    by (intro conjI)
qed

theorem verse_test_witness:
  "is_probable_verse plain_db (cp ''Per me si va'')
   \<and> \<not> is_probable_verse plain_db (cp ''A. D. MCCC'')
   \<and> step plain_db sample_cfg 0 open_state (cp ''47'') = Inr open_state"
proof -
  note inst = verse_test [of plain_db _ sample_cfg 0 open_state]
  have a: "py_split (cp ''Per me si va'') =
      [cp ''Per'', cp ''me'', cp ''si'', cp ''va'']"
    by (simp add: py_split_def eval_strings)
  have b: "\<not> looks_like_noise plain_db (cp ''Per me si va'')"
    by (simp add: eval_regex eval_strings)
  have c: "filter (is_word plain_db) (cp ''Per me si va'') = cp ''Permesiva''"
    by (simp add: is_word_def eval_strings)
  have d: "\<not> list_all (\<lambda>c. (65 \<le> c \<and> c \<le> 90) \<or> is_space c \<or> c = 46 \<or> c = 45)
      (cp ''Per me si va'')"
    by (simp add: eval_strings)
  have e: "cp ''Per me si va'' \<noteq> []" "length (cp ''Permesiva'') = 9"
    by (simp_all add: cp_def)
  from inst [of "cp ''Per me si va''"] b c d e demo_part_lines(11) [of plain_db]
    demo_canto_lines(9) [of plain_db]
  have first: "is_probable_verse plain_db (cp ''Per me si va'')"
    by simp
  have f: "length (py_split (cp ''A. D. MCCC'')) = 3"
    by (simp add: py_split_def eval_strings)
  have g: "list_all (\<lambda>c. (65 \<le> c \<and> c \<le> 90) \<or> is_space c \<or> c = 46 \<or> c = 45)
      (cp ''A. D. MCCC'')"
    by (simp add: eval_strings)
  from inst [of "cp ''A. D. MCCC''"] f g
  have second: "\<not> is_probable_verse plain_db (cp ''A. D. MCCC'')"
    by simp
  from inst [of "[]"] have third: "step plain_db sample_cfg 0 open_state (cp ''47'') = Inr open_state"
    by simp
  from first second third show ?thesis
    by (intro conjI)
qed

end
